theory Spec2Isabelle
  imports Main "HOL-Library.Word" "HOL-Library.Monad_Syntax"
begin

section \<open>The ITQ-LSH index of \<^verbatim>\<open>itqlsh.h\<close>: data model\<close>

text \<open>
  The class \<^verbatim>\<open>itqLsh<DATATYPE>\<close> is embedded with \<^verbatim>\<open>DATATYPE = float\<close>, its default.
  A C++ \<^verbatim>\<open>unsigned\<close> is a 32-bit word, so that \<^verbatim>\<open>sum += rndArray[k][i]\<close> wraps around and
  \<^verbatim>\<open>%\<close> is the unsigned remainder. A \<^verbatim>\<open>float\<close> is a value of a type \<open>'f\<close> of which only the
  operations the code applies are used (\<open>0\<close>, \<open>+\<close>, \<open>*\<close> and \<open><\<close> in the hasher, \<open>1\<close> and
  \<open>- 1\<close> in the trainer); no law of arithmetic is assumed of them, so every theorem below
  holds whatever the rounding is.

  A \<^verbatim>\<open>std::vector\<close> is a list. Indexing a vector or the caller's array out of range, and
  \<^verbatim>\<open>% 0\<close>, are undefined behaviour in C++: the model returns \<open>None\<close> there. The index \<open>k\<close> of
  a table and the loop counters are natural numbers, bounded by the 32-bit fields they are
  compared with.
\<close>

type_synonym u32 = "32 word"

record Parameter =
  M :: u32
  L :: u32
  D :: u32
  N :: u32
  S :: u32
  I :: u32

text \<open>
  A \<^verbatim>\<open>std::map<unsigned, std::vector<unsigned> >\<close> keeps its entries in ascending key order:
  an association list, kept sorted by the operations below.
\<close>

type_synonym bucket_map = "(u32 \<times> u32 list) list"

record 'f itqLsh =
  param :: Parameter
  pcsAll :: "'f list list list"
  omegasAll :: "'f list list list"
  rndArray :: "u32 list list"
  tables :: "bucket_map list"

subsection \<open>Vectors and maps of the standard library\<close>

definition vec_at :: "'a list \<Rightarrow> nat \<Rightarrow> 'a option" where
  "vec_at xs i = (if i < length xs then Some (xs ! i) else None)"

definition resize_vec :: "nat \<Rightarrow> 'a \<Rightarrow> 'a list \<Rightarrow> 'a list" where
  "resize_vec n d xs = take n xs @ replicate (n - length xs) d"

text \<open>\<^verbatim>\<open>m.find(h)\<close>: the search for \<open>h\<close> along the ascending keys.\<close>

fun map_find :: "u32 \<Rightarrow> bucket_map \<Rightarrow> u32 list option" where
  "map_find h [] = None"
| "map_find h ((b, ids) # m) =
     (if h = b then Some ids else if h < b then None else map_find h m)"

text \<open>
  \<^verbatim>\<open>m[h]\<close>: the vector stored under \<open>h\<close> and the map afterwards, which has a new empty vector
  under \<open>h\<close> when the key was absent.
\<close>

fun map_index :: "u32 \<Rightarrow> bucket_map \<Rightarrow> u32 list \<times> bucket_map" where
  "map_index h [] = ([], [(h, [])])"
| "map_index h ((b, ids) # m) =
     (if h = b then (ids, (b, ids) # m)
      else if h < b then ([], (h, []) # (b, ids) # m)
      else (case map_index h m of (v, m') \<Rightarrow> (v, (b, ids) # m')))"

text \<open>Assignment through the reference that \<^verbatim>\<open>m[h]\<close> returned.\<close>

fun map_store :: "u32 \<Rightarrow> u32 list \<Rightarrow> bucket_map \<Rightarrow> bucket_map" where
  "map_store h v [] = []"
| "map_store h v ((b, ids) # m) =
     (if h = b then (b, v) # m else (b, ids) # map_store h v m)"

subsection \<open>\<^verbatim>\<open>getHashVal\<close>\<close>

text \<open>
  The two inner loops \<^verbatim>\<open>acc += x[j] * row[j]\<close> for \<open>j\<close> below \<^verbatim>\<open>row.size()\<close>: the row bounds
  the loop, the other operand is read by index and may be too short.
\<close>

fun dot_acc :: "'f::{plus,times} \<Rightarrow> 'f list \<Rightarrow> 'f list \<Rightarrow> 'f option" where
  "dot_acc acc xs [] = Some acc"
| "dot_acc acc [] (w # ws) = None"
| "dot_acc acc (x # xs) (w # ws) = dot_acc (acc + x * w) xs ws"

text \<open>The first loop: \<^verbatim>\<open>domin_pc[i]\<close> for every row \<open>i\<close> of \<^verbatim>\<open>pcsAll[k]\<close>, starting from 0.\<close>

fun project :: "'f::{zero,plus,times} list \<Rightarrow> 'f list list \<Rightarrow> 'f list option" where
  "project domin [] = Some []"
| "project domin (row # rows) =
     do { p \<leftarrow> dot_acc 0 domin row;
          ps \<leftarrow> project domin rows;
          Some (p # ps) }"

text \<open>
  The second loop, \<open>c\<close> iterations from bit \<open>i\<close> on: the rotated projection of bit \<open>i\<close> is
  \<^verbatim>\<open>product\<close>, and \<^verbatim>\<open>rndArray[k][i]\<close> is read and added to \<^verbatim>\<open>sum\<close> (here \<open>hsum\<close>) only when
  \<^verbatim>\<open>product > 0\<close>.
\<close>

fun bits_loop ::
  "'f::{zero,plus,times,ord} itqLsh \<Rightarrow> nat \<Rightarrow> 'f list \<Rightarrow> nat \<Rightarrow> nat \<Rightarrow> u32 \<Rightarrow> u32 option" where
  "bits_loop st k domin_pc 0 i hsum = Some hsum"
| "bits_loop st k domin_pc (Suc c) i hsum =
     do { omegas \<leftarrow> vec_at (omegasAll st) k;
          omega \<leftarrow> vec_at omegas i;
          product \<leftarrow> dot_acc 0 domin_pc omega;
          (if 0 < product
           then do { rnd \<leftarrow> vec_at (rndArray st) k;
                     r \<leftarrow> vec_at rnd i;
                     bits_loop st k domin_pc c (Suc i) (hsum + r) }
           else bits_loop st k domin_pc c (Suc i) hsum) }"

definition getHashVal :: "'f::{zero,plus,times,ord} itqLsh \<Rightarrow> nat \<Rightarrow> 'f list \<Rightarrow> u32 option" where
  "getHashVal st k domin =
     do { pcs \<leftarrow> vec_at (pcsAll st) k;
          domin_pc \<leftarrow> project domin pcs;
          hsum \<leftarrow> bits_loop st k domin_pc (length domin_pc) 0 0;
          (if M (param st) = 0 then None else Some (hsum mod M (param st))) }"

subsection \<open>\<^verbatim>\<open>insert\<close>, \<^verbatim>\<open>hash\<close> and \<^verbatim>\<open>query\<close>\<close>

text \<open>\<^verbatim>\<open>tables[k][hashVal].push_back(key)\<close> on one table.\<close>

definition push_back_at :: "u32 \<Rightarrow> u32 \<Rightarrow> bucket_map \<Rightarrow> bucket_map" where
  "push_back_at hashVal key t =
     (case map_index hashVal t of (v, t') \<Rightarrow> map_store hashVal (v @ [key]) t')"

fun insert_loop ::
  "nat \<Rightarrow> nat \<Rightarrow> u32 \<Rightarrow> 'f::{zero,plus,times,ord} list \<Rightarrow> 'f itqLsh \<Rightarrow> 'f itqLsh option" where
  "insert_loop 0 k key domin st = Some st"
| "insert_loop (Suc c) k key domin st =
     do { hashVal \<leftarrow> getHashVal st k domin;
          t \<leftarrow> vec_at (tables st) k;
          insert_loop c (Suc k) key domin
            (st\<lparr>tables := (tables st)[k := push_back_at hashVal key t]\<rparr>) }"

definition insert_key ::
  "'f::{zero,plus,times,ord} itqLsh \<Rightarrow> u32 \<Rightarrow> 'f list \<Rightarrow> 'f itqLsh option" where
  "insert_key st key domin = insert_loop (unat (L (param st))) 0 key domin st"

text \<open>
  Modelled from the spec: the container \<^verbatim>\<open>Matrix<T>\<close> is not part of the sources. It supplies
  the dataset size, the dimension and row access by index (section 6.1 of the specification):
  a dimension and a list of rows.
\<close>

record 'f Matrix =
  getDim :: nat
  rows :: "'f list list"

definition getSize :: "'f Matrix \<Rightarrow> nat" where
  "getSize data = length (rows data)"

fun hash_loop ::
  "nat \<Rightarrow> nat \<Rightarrow> 'f::{zero,plus,times,ord} Matrix \<Rightarrow> 'f itqLsh \<Rightarrow> 'f itqLsh option" where
  "hash_loop 0 i data st = Some st"
| "hash_loop (Suc c) i data st =
     do { row \<leftarrow> vec_at (rows data) i;
          st' \<leftarrow> insert_key st (word_of_nat i) row;
          hash_loop c (Suc i) data st' }"

definition hash :: "'f::{zero,plus,times,ord} itqLsh \<Rightarrow> 'f Matrix \<Rightarrow> 'f itqLsh option" where
  "hash st data = hash_loop (getSize data) 0 data st"

text \<open>
  The scanner is an external collaborator: a query is modelled by the ids handed to
  \<^verbatim>\<open>scanner(*iter)\<close>, in order, after \<^verbatim>\<open>scanner.reset\<close>. The index after the call is returned
  too, since \<^verbatim>\<open>tables[k][hashVal]\<close> in the loop header is the inserting \<^verbatim>\<open>operator[]\<close>.
\<close>

fun query_loop ::
  "nat \<Rightarrow> nat \<Rightarrow> 'f::{zero,plus,times,ord} list \<Rightarrow> 'f itqLsh \<Rightarrow> u32 list
     \<Rightarrow> ('f itqLsh \<times> u32 list) option" where
  "query_loop 0 k domin st out = Some (st, out)"
| "query_loop (Suc c) k domin st out =
     do { hashVal \<leftarrow> getHashVal st k domin;
          t \<leftarrow> vec_at (tables st) k;
          (if map_find hashVal t \<noteq> None
           then (case map_index hashVal t of (v, t') \<Rightarrow>
                   query_loop c (Suc k) domin (st\<lparr>tables := (tables st)[k := t']\<rparr>) (out @ v))
           else query_loop c (Suc k) domin st out) }"

definition query ::
  "'f::{zero,plus,times,ord} itqLsh \<Rightarrow> 'f list \<Rightarrow> ('f itqLsh \<times> u32 list) option" where
  "query st domin = query_loop (unat (L (param st))) 0 domin st []"

subsection \<open>\<^verbatim>\<open>reset\<close>\<close>

text \<open>
  \<^verbatim>\<open>std::uniform_int_distribution<unsigned>(a, b)\<close> drawn from a \<^verbatim>\<open>std::mt19937\<close> is library
  code: a parameter \<open>us a b g\<close> that returns the sample and the generator afterwards. The
  generator is seeded from the clock, so its first state \<open>rng\<close> is a parameter as well.
\<close>

type_synonym 'g sampler = "u32 \<Rightarrow> u32 \<Rightarrow> 'g \<Rightarrow> u32 \<times> 'g"

text \<open>The inner loop: \<^verbatim>\<open>iter->push_back(usArray(rng))\<close>, \<open>c\<close> times.\<close>

fun push_samples :: "'g sampler \<Rightarrow> u32 \<Rightarrow> nat \<Rightarrow> u32 list \<Rightarrow> 'g \<Rightarrow> u32 list \<times> 'g" where
  "push_samples us hi 0 row g = (row, g)"
| "push_samples us hi (Suc c) row g =
     (case us 0 hi g of (r, g') \<Rightarrow> push_samples us hi c (row @ [r]) g')"

text \<open>The outer loop over the elements of \<^verbatim>\<open>rndArray\<close>.\<close>

fun fill_rnd :: "'g sampler \<Rightarrow> u32 \<Rightarrow> nat \<Rightarrow> u32 list list \<Rightarrow> 'g \<Rightarrow> u32 list list" where
  "fill_rnd us hi n [] g = []"
| "fill_rnd us hi n (row # rs) g =
     (case push_samples us hi n row g of (row', g') \<Rightarrow> row' # fill_rnd us hi n rs g')"

definition reset :: "'g sampler \<Rightarrow> 'g \<Rightarrow> 'f itqLsh \<Rightarrow> Parameter \<Rightarrow> 'f itqLsh" where
  "reset us rng st param0 =
     st\<lparr>param := param0,
        tables := resize_vec (unat (L param0)) [] (tables st),
        rndArray := fill_rnd us (M param0 - 1) (unat (N param0))
                      (resize_vec (unat (L param0)) [] (rndArray st)) rng,
        pcsAll := resize_vec (unat (L param0)) [] (pcsAll st),
        omegasAll := resize_vec (unat (L param0)) [] (omegasAll st)\<rparr>"

text \<open>
  The default constructor \<^verbatim>\<open>itqLsh() {}\<close>: four empty vectors, and a \<^verbatim>\<open>param\<close> that is not
  initialised, whose content is the argument.
\<close>

definition fresh :: "Parameter \<Rightarrow> 'f itqLsh" where
  "fresh p = \<lparr>param = p, pcsAll = [], omegasAll = [], rndArray = [], tables = []\<rparr>"

subsection \<open>\<^verbatim>\<open>save\<close> and \<^verbatim>\<open>load\<close>\<close>

text \<open>
  Every \<^verbatim>\<open>read\<close> and \<^verbatim>\<open>write\<close> moves whole 4-byte fields, unsigned or float: the file is the
  list of its fields. Writing \<open>n\<close> elements from \<^verbatim>\<open>&v[0]\<close> reads \<open>v\<close> out of range when
  it is shorter.
\<close>

datatype 'f cell = U u32 | F 'f

definition vec_prefix :: "nat \<Rightarrow> 'a list \<Rightarrow> 'a list option" where
  "vec_prefix n xs = (if n \<le> length xs then Some (take n xs) else None)"

text \<open>
  The buckets of one table, in the map's order. \<^verbatim>\<open>unsigned(iter->second.size())\<close> is the size
  modulo \<open>2 ^ 32\<close>, and that many ids are written.
\<close>

fun save_buckets :: "bucket_map \<Rightarrow> 'f cell list" where
  "save_buckets [] = []"
| "save_buckets ((target, ids) # m) =
     U target # U (word_of_nat (length ids)) #
       map U (take (unat (word_of_nat (length ids) :: u32)) ids) @ save_buckets m"

fun save_rows :: "nat \<Rightarrow> nat \<Rightarrow> 'f itqLsh \<Rightarrow> nat \<Rightarrow> 'f cell list option" where
  "save_rows 0 j st i = Some []"
| "save_rows (Suc c) j st i =
     do { pcs \<leftarrow> vec_at (pcsAll st) i;
          pc \<leftarrow> vec_at pcs j;
          ps \<leftarrow> vec_prefix (unat (D (param st))) pc;
          omegas \<leftarrow> vec_at (omegasAll st) i;
          omega \<leftarrow> vec_at omegas j;
          os \<leftarrow> vec_prefix (unat (N (param st))) omega;
          rest \<leftarrow> save_rows c (Suc j) st i;
          Some (map F ps @ map F os @ rest) }"

fun save_tables :: "nat \<Rightarrow> nat \<Rightarrow> 'f itqLsh \<Rightarrow> 'f cell list option" where
  "save_tables 0 i st = Some []"
| "save_tables (Suc c) i st =
     do { rnd \<leftarrow> vec_at (rndArray st) i;
          rs \<leftarrow> vec_prefix (unat (N (param st))) rnd;
          t \<leftarrow> vec_at (tables st) i;
          rws \<leftarrow> save_rows (unat (N (param st))) 0 st i;
          rest \<leftarrow> save_tables c (Suc i) st;
          Some (map U rs @ U (word_of_nat (length t)) # save_buckets t @ rws @ rest) }"

text \<open>
  The table loop of \<^verbatim>\<open>save\<close> counts with an \<^verbatim>\<open>int\<close>: it overflows before it reaches an
  \<^verbatim>\<open>L\<close> above \<open>2 ^ 31 - 1\<close>, which is undefined.
\<close>

definition save :: "'f itqLsh \<Rightarrow> 'f cell list option" where
  "save st =
     (if 2 ^ 31 \<le> unat (L (param st)) then None
      else do { body \<leftarrow> save_tables (unat (L (param st))) 0 st;
                Some (U (M (param st)) # U (L (param st)) # U (D (param st)) #
                      U (N (param st)) # U (S (param st)) # body) })"

text \<open>
  \<^verbatim>\<open>load\<close> never tests the stream. A \<^verbatim>\<open>read\<close> of \<open>n\<close> fields copies the fields that are left, at
  most \<open>n\<close>, over the start of its buffer; when fewer are left the stream fails, the rest of
  the buffer keeps what it held, and every later \<^verbatim>\<open>read\<close> copies nothing. A field that is read
  back at the other type is its bit pattern seen at that type: the two casts are parameters
  of the model. So is what the locals \<^verbatim>\<open>count\<close>, \<^verbatim>\<open>target\<close> and \<^verbatim>\<open>length\<close> hold when nothing is
  read into them: they are not initialised, \<open>left_count e i\<close> is the content of \<^verbatim>\<open>count\<close> in
  table \<open>i\<close>, \<open>left_target e i j\<close> and \<open>left_length e i j\<close> that of the other two in round \<open>j\<close>
  of the bucket loop of table \<open>i\<close>.
\<close>

record 'f env =
  as_unsigned :: "'f \<Rightarrow> u32"
  as_float :: "u32 \<Rightarrow> 'f"
  left_count :: "nat \<Rightarrow> u32"
  left_target :: "nat \<Rightarrow> nat \<Rightarrow> u32"
  left_length :: "nat \<Rightarrow> nat \<Rightarrow> u32"

fun get_u32 :: "'f env \<Rightarrow> 'f cell \<Rightarrow> u32" where
  "get_u32 e (U w) = w"
| "get_u32 e (F x) = as_unsigned e x"

fun get_f32 :: "'f env \<Rightarrow> 'f cell \<Rightarrow> 'f" where
  "get_f32 e (F x) = x"
| "get_f32 e (U w) = as_float e w"

text \<open>A \<^verbatim>\<open>read\<close> into one \<^verbatim>\<open>unsigned\<close> that holds \<open>old\<close>.\<close>

fun read_u32 :: "'f env \<Rightarrow> u32 \<Rightarrow> 'f cell list \<Rightarrow> u32 \<times> 'f cell list" where
  "read_u32 e old [] = (old, [])"
| "read_u32 e old (c # inp) = (get_u32 e c, inp)"

text \<open>
  A \<^verbatim>\<open>read\<close> of \<open>length buf\<close> fields into the vector \<open>buf\<close>, from its element 0 on: the vector
  afterwards and the rest of the file.
\<close>

definition read_u32s :: "'f env \<Rightarrow> u32 list \<Rightarrow> 'f cell list \<Rightarrow> u32 list \<times> 'f cell list" where
  "read_u32s e buf inp =
     (map (get_u32 e) (take (length buf) inp) @ drop (length inp) buf, drop (length buf) inp)"

definition read_f32s :: "'f env \<Rightarrow> 'f list \<Rightarrow> 'f cell list \<Rightarrow> 'f list \<times> 'f cell list" where
  "read_f32s e buf inp =
     (map (get_f32 e) (take (length buf) inp) @ drop (length inp) buf, drop (length buf) inp)"

text \<open>
  The bucket loop of table \<open>i\<close>, \<open>c\<close> rounds from round \<open>j\<close> on: \<^verbatim>\<open>tables[i][target]\<close> finds the
  bucket or makes an empty one, \<^verbatim>\<open>resize(length)\<close> cuts it or fills it up with zeros, and the
  \<^verbatim>\<open>read\<close> goes into it.
\<close>

fun load_buckets ::
  "'f env \<Rightarrow> nat \<Rightarrow> nat \<Rightarrow> nat \<Rightarrow> bucket_map \<Rightarrow> 'f cell list \<Rightarrow> bucket_map \<times> 'f cell list" where
  "load_buckets e i 0 j t inp = (t, inp)"
| "load_buckets e i (Suc c) j t inp =
     (case read_u32 e (left_target e i j) inp of (target, inp1) \<Rightarrow>
      case read_u32 e (left_length e i j) inp1 of (len, inp2) \<Rightarrow>
      case map_index target t of (v, t1) \<Rightarrow>
      case read_u32s e (resize_vec (unat len) 0 v) inp2 of (ids, inp3) \<Rightarrow>
        load_buckets e i c (Suc j) (map_store target ids t1) inp3)"

text \<open>
  The row loop, \<open>c\<close> rounds from row \<open>j\<close> on, over \<^verbatim>\<open>pcsAll[i]\<close> and \<^verbatim>\<open>omegasAll[i]\<close>, which both
  have \<open>j + c\<close> rows by their \<^verbatim>\<open>resize(param.N)\<close>: row \<open>j\<close> of each is resized, to \<open>d\<close> and to
  \<open>n\<close> floats, and read into.
\<close>

fun load_rows ::
  "'f::zero env \<Rightarrow> nat \<Rightarrow> nat \<Rightarrow> nat \<Rightarrow> nat \<Rightarrow> 'f list list \<Rightarrow> 'f list list \<Rightarrow> 'f cell list
     \<Rightarrow> 'f list list \<times> 'f list list \<times> 'f cell list" where
  "load_rows e 0 j d n pcs omegas inp = (pcs, omegas, inp)"
| "load_rows e (Suc c) j d n pcs omegas inp =
     (case read_f32s e (resize_vec d 0 (pcs ! j)) inp of (pc, inp1) \<Rightarrow>
      case read_f32s e (resize_vec n 0 (omegas ! j)) inp1 of (omega, inp2) \<Rightarrow>
        load_rows e c (Suc j) d n (pcs[j := pc]) (omegas[j := omega]) inp2)"

text \<open>
  The table loop, \<open>c\<close> rounds from table \<open>i\<close> on; the four arrays have \<open>i + c\<close> elements by
  their \<^verbatim>\<open>resize(param.L)\<close>.
\<close>

fun load_tables :: "'f::zero env \<Rightarrow> nat \<Rightarrow> nat \<Rightarrow> 'f itqLsh \<Rightarrow> 'f cell list \<Rightarrow> 'f itqLsh" where
  "load_tables e 0 i st inp = st"
| "load_tables e (Suc c) i st inp =
     (case read_u32s e (resize_vec (unat (N (param st))) 0 (rndArray st ! i)) inp
        of (rnd, inp1) \<Rightarrow>
      case read_u32 e (left_count e i) inp1 of (count, inp2) \<Rightarrow>
      case load_buckets e i (unat count) 0 (tables st ! i) inp2 of (t, inp3) \<Rightarrow>
      case load_rows e (unat (N (param st))) 0 (unat (D (param st))) (unat (N (param st)))
             (resize_vec (unat (N (param st))) [] (pcsAll st ! i))
             (resize_vec (unat (N (param st))) [] (omegasAll st ! i)) inp3
        of (pcs, omegas, inp4) \<Rightarrow>
        load_tables e c (Suc i)
          (st\<lparr>rndArray := (rndArray st)[i := rnd],
              tables := (tables st)[i := t],
              pcsAll := (pcsAll st)[i := pcs],
              omegasAll := (omegasAll st)[i := omegas]\<rparr>) inp4)"

definition load :: "'f::zero env \<Rightarrow> 'f itqLsh \<Rightarrow> 'f cell list \<Rightarrow> 'f itqLsh" where
  "load e st file =
     (case read_u32 e (M (param st)) file of (m, inp1) \<Rightarrow>
      case read_u32 e (L (param st)) inp1 of (l, inp2) \<Rightarrow>
      case read_u32 e (D (param st)) inp2 of (d, inp3) \<Rightarrow>
      case read_u32 e (N (param st)) inp3 of (n, inp4) \<Rightarrow>
      case read_u32 e (S (param st)) inp4 of (s, inp5) \<Rightarrow>
        load_tables e (unat l) 0
          (st\<lparr>param := (param st)\<lparr>M := m, L := l, D := d, N := n, S := s\<rparr>,
              tables := resize_vec (unat l) [] (tables st),
              rndArray := resize_vec (unat l) [] (rndArray st),
              pcsAll := resize_vec (unat l) [] (pcsAll st),
              omegasAll := resize_vec (unat l) [] (omegasAll st)\<rparr>) inp5)"

subsection \<open>\<^verbatim>\<open>train\<close>\<close>

text \<open>
  Eigen is a library outside the sources: its routines are parameters of \<^verbatim>\<open>train\<close>, and
  nothing is assumed of them. A matrix is the list of its rows. \<open>pca_basis X n\<close> stands for
  lines 185 to 188 (centring, the covariance, \<^verbatim>\<open>SelfAdjointEigenSolver\<close> and
  \<^verbatim>\<open>rightCols(n)\<close>), \<open>svd_U\<close> and \<open>svd_V\<close> for \<^verbatim>\<open>JacobiSVD\<close> with its thin factors.
\<close>

type_synonym 'f mat = "'f list list"

record 'f eigen =
  pca_basis :: "'f mat \<Rightarrow> nat \<Rightarrow> 'f mat"
  mat_mul :: "'f mat \<Rightarrow> 'f mat \<Rightarrow> 'f mat"
  mat_transpose :: "'f mat \<Rightarrow> 'f mat"
  svd_U :: "'f mat \<Rightarrow> 'f mat"
  svd_V :: "'f mat \<Rightarrow> 'f mat"

definition mat_at :: "'f mat \<Rightarrow> nat \<Rightarrow> nat \<Rightarrow> 'f option" where
  "mat_at A r c = do { row \<leftarrow> vec_at A r; vec_at row c }"

text \<open>
  The sampling loop draws until \<^verbatim>\<open>seqs\<close> holds \<open>s\<close> distinct targets. It need not end:
  not returning is \<open>None\<close>.
\<close>

partial_function (option) sample_seqs ::
  "'g sampler \<Rightarrow> u32 \<Rightarrow> nat \<Rightarrow> u32 list \<Rightarrow> 'g \<Rightarrow> (u32 list \<times> 'g) option" where
  "sample_seqs us hi s seqs g =
     (if length seqs = s then Some (seqs, g)
      else (case us 0 hi g of (target, g') \<Rightarrow>
              if target \<in> set seqs then sample_seqs us hi s seqs g'
              else sample_seqs us hi s (seqs @ [target]) g'))"

declare sample_seqs.simps [code]

text \<open>The rows of \<^verbatim>\<open>tmp\<close>: \<^verbatim>\<open>data[seqs[i]][j]\<close> for \<open>j\<close> below \<^verbatim>\<open>data.getDim()\<close>.\<close>

fun gather_rows :: "'f Matrix \<Rightarrow> u32 list \<Rightarrow> 'f mat option" where
  "gather_rows data [] = Some []"
| "gather_rows data (s # seqs) =
     do { row \<leftarrow> vec_at (rows data) (unat s);
          vals \<leftarrow> vec_prefix (getDim data) row;
          tmp \<leftarrow> gather_rows data seqs;
          Some (vals # tmp) }"

text \<open>\<^verbatim>\<open>R(i, j) = nd(rng)\<close>, row by row; \<open>nd\<close> is the normal distribution on the generator.\<close>

fun draw_row :: "('g \<Rightarrow> 'f \<times> 'g) \<Rightarrow> nat \<Rightarrow> 'g \<Rightarrow> 'f list \<times> 'g" where
  "draw_row nd 0 g = ([], g)"
| "draw_row nd (Suc c) g =
     (case nd g of (x, g1) \<Rightarrow> case draw_row nd c g1 of (xs, g2) \<Rightarrow> (x # xs, g2))"

fun draw_rows :: "('g \<Rightarrow> 'f \<times> 'g) \<Rightarrow> nat \<Rightarrow> nat \<Rightarrow> 'g \<Rightarrow> 'f mat \<times> 'g" where
  "draw_rows nd n 0 g = ([], g)"
| "draw_rows nd n (Suc c) g =
     (case draw_row nd n g of (r, g1) \<Rightarrow> case draw_rows nd n c g1 of (rs, g2) \<Rightarrow> (r # rs, g2))"

text \<open>The quantisation of \<^verbatim>\<open>Z\<close> into \<^verbatim>\<open>UX\<close>, entry by entry.\<close>

definition sign_matrix :: "'f::{zero,one,uminus,ord} mat \<Rightarrow> 'f mat" where
  "sign_matrix Z = map (map (\<lambda>z. if 0 < z then 1 else - 1)) Z"

fun itq_loop :: "'f::{zero,one,uminus,ord} eigen \<Rightarrow> nat \<Rightarrow> 'f mat \<Rightarrow> 'f mat \<Rightarrow> 'f mat" where
  "itq_loop lib 0 mat_c R = R"
| "itq_loop lib (Suc c) mat_c R =
     (let Z = mat_mul lib mat_c R;
          UX = sign_matrix Z;
          X = mat_mul lib (mat_transpose lib UX) mat_c
      in itq_loop lib c mat_c (mat_mul lib (svd_V lib X) (mat_transpose lib (svd_U lib X))))"

text \<open>
  The two storing loops: row \<open>i\<close> of the stored array is column \<open>i\<close> of the matrix,
  \<^verbatim>\<open>A(j, i)\<close> for \<open>j\<close> below the row's new size. Every entry of the resized array is assigned.
\<close>

fun store_row :: "'f mat \<Rightarrow> nat \<Rightarrow> nat \<Rightarrow> nat \<Rightarrow> 'f list option" where
  "store_row A i 0 j = Some []"
| "store_row A i (Suc c) j =
     do { x \<leftarrow> mat_at A j i;
          xs \<leftarrow> store_row A i c (Suc j);
          Some (x # xs) }"

fun store_rows :: "'f mat \<Rightarrow> nat \<Rightarrow> nat \<Rightarrow> nat \<Rightarrow> 'f mat option" where
  "store_rows A len 0 i = Some []"
| "store_rows A len (Suc c) i =
     do { r \<leftarrow> store_row A i len 0;
          rs \<leftarrow> store_rows A len c (Suc i);
          Some (r # rs) }"

definition train_table ::
  "'f::{zero,one,uminus,ord} eigen \<Rightarrow> 'g sampler \<Rightarrow> ('g \<Rightarrow> 'f \<times> 'g) \<Rightarrow> 'f Matrix
     \<Rightarrow> 'f itqLsh \<Rightarrow> nat \<Rightarrow> 'g \<Rightarrow> ('f itqLsh \<times> 'g) option" where
  "train_table lib us nd data st k g =
     do { (seqs, g1) \<leftarrow>
            sample_seqs us (word_of_nat (getSize data) - 1) (unat (S (param st))) [] g;
          tmp \<leftarrow> gather_rows data (sort seqs);
          (let npca = unat (N (param st));
               mat_pca = pca_basis lib tmp npca;
               mat_c = mat_mul lib tmp mat_pca
           in case draw_rows nd npca npca g1 of (R0, g2) \<Rightarrow>
             (let R = itq_loop lib (unat (I (param st))) mat_c (svd_U lib R0)
              in do { omegas \<leftarrow> store_rows R npca npca 0;
                      pcs \<leftarrow> store_rows mat_pca (unat (D (param st))) npca 0;
                      (if k < length (omegasAll st) \<and> k < length (pcsAll st)
                       then Some (st\<lparr>omegasAll := (omegasAll st)[k := omegas],
                                     pcsAll := (pcsAll st)[k := pcs]\<rparr>, g2)
                       else None) })) }"

fun train_loop ::
  "'f::{zero,one,uminus,ord} eigen \<Rightarrow> 'g sampler \<Rightarrow> ('g \<Rightarrow> 'f \<times> 'g) \<Rightarrow> 'f Matrix
     \<Rightarrow> nat \<Rightarrow> nat \<Rightarrow> 'f itqLsh \<Rightarrow> 'g \<Rightarrow> 'f itqLsh option" where
  "train_loop lib us nd data 0 k st g = Some st"
| "train_loop lib us nd data (Suc c) k st g =
     do { (st', g') \<leftarrow> train_table lib us nd data st k g;
          train_loop lib us nd data c (Suc k) st' g' }"

text \<open>
  \<^verbatim>\<open>int npca = param.N\<close> has no defined value in the model for an \<^verbatim>\<open>N\<close> above \<open>2 ^ 31 - 1\<close>.
\<close>

definition train ::
  "'f::{zero,one,uminus,ord} eigen \<Rightarrow> 'g sampler \<Rightarrow> ('g \<Rightarrow> 'f \<times> 'g) \<Rightarrow> 'g
     \<Rightarrow> 'f itqLsh \<Rightarrow> 'f Matrix \<Rightarrow> 'f itqLsh option" where
  "train lib us nd rng st data =
     (if 2 ^ 31 \<le> unat (N (param st)) then None
      else train_loop lib us nd data (unat (L (param st))) 0 st rng)"

subsection \<open>Sequences of insertions\<close>

text \<open>
  The two operations that add ids to the tables, and a run of them on an index. Neither
  touches \<^verbatim>\<open>param\<close>, \<^verbatim>\<open>pcsAll\<close>, \<^verbatim>\<open>omegasAll\<close> or \<^verbatim>\<open>rndArray\<close>.
\<close>

datatype 'f op = Insert u32 "'f list" | Hash "'f Matrix"

fun apply_op :: "'f::{zero,plus,times,ord} itqLsh \<Rightarrow> 'f op \<Rightarrow> 'f itqLsh option" where
  "apply_op st (Insert key domin) = insert_key st key domin"
| "apply_op st (Hash data) = hash st data"

fun run_ops :: "'f::{zero,plus,times,ord} itqLsh \<Rightarrow> 'f op list \<Rightarrow> 'f itqLsh option" where
  "run_ops st [] = Some st"
| "run_ops st (x # xs) = do { st' \<leftarrow> apply_op st x; run_ops st' xs }"





text \<open>The calls \<^verbatim>\<open>insert(i, data[i])\<close> for the indices of a list, in order.\<close>

fun insert_rows ::
  "'f::{zero,plus,times,ord} itqLsh \<Rightarrow> 'f Matrix \<Rightarrow> nat list \<Rightarrow> 'f itqLsh option" where
  "insert_rows st data [] = Some st"
| "insert_rows st data (i # is) =
     do { row \<leftarrow> vec_at (rows data) i;
          st' \<leftarrow> insert_key st (word_of_nat i) row;
          insert_rows st' data is }"

subsection \<open>The hash as the specification words it\<close>

text \<open>
  Section 4.3 of the specification: \<open>p[i] = \<Sum>j. v[j] * pcs[k][i][j]\<close> over the \<open>D\<close>
  coordinates, \<open>s[i] = \<Sum>j. p[j] * omegas[k][i][j]\<close> over the \<open>N\<close> bits, and the hash is the
  sum of the \<open>rnd[k][i]\<close> with \<open>s[i] > 0\<close>, modulo \<open>M\<close>. A sum adds its terms one after the
  other, from 0 and from index 0 on; on 32-bit words the addition wraps around.
\<close>

definition spec_sum :: "(nat \<Rightarrow> 'a::{zero,plus}) \<Rightarrow> nat list \<Rightarrow> 'a" where
  "spec_sum f js = foldl (+) 0 (map f js)"

definition spec_p :: "'f::{zero,plus,times} itqLsh \<Rightarrow> nat \<Rightarrow> 'f list \<Rightarrow> nat \<Rightarrow> 'f" where
  "spec_p st k v i = spec_sum (\<lambda>j. v ! j * pcsAll st ! k ! i ! j) [0..<unat (D (param st))]"

definition spec_s :: "'f::{zero,plus,times} itqLsh \<Rightarrow> nat \<Rightarrow> 'f list \<Rightarrow> nat \<Rightarrow> 'f" where
  "spec_s st k v i =
     spec_sum (\<lambda>j. spec_p st k v j * omegasAll st ! k ! i ! j) [0..<unat (N (param st))]"

definition spec_hash :: "'f::{zero,plus,times,ord} itqLsh \<Rightarrow> nat \<Rightarrow> 'f list \<Rightarrow> u32" where
  "spec_hash st k v =
     spec_sum (\<lambda>i. rndArray st ! k ! i)
       (filter (\<lambda>i. 0 < spec_s st k v i) [0..<unat (N (param st))]) mod M (param st)"

text \<open>
  Table \<open>k\<close> has the shape that \<^verbatim>\<open>train\<close> and \<^verbatim>\<open>load\<close> give it: \<open>N\<close> rows of \<open>D\<close> floats in
  \<^verbatim>\<open>pcsAll[k]\<close>, \<open>N\<close> rows of \<open>N\<close> floats in \<^verbatim>\<open>omegasAll[k]\<close>, at least \<open>N\<close> weights in
  \<^verbatim>\<open>rndArray[k]\<close>.
\<close>

definition trained_table :: "'f itqLsh \<Rightarrow> nat \<Rightarrow> bool" where
  "trained_table st k \<longleftrightarrow>
     k < length (pcsAll st) \<and> k < length (omegasAll st) \<and> k < length (rndArray st) \<and>
     length (pcsAll st ! k) = unat (N (param st)) \<and>
     list_all (\<lambda>row. length row = unat (D (param st))) (pcsAll st ! k) \<and>
     length (omegasAll st ! k) = unat (N (param st)) \<and>
     list_all (\<lambda>row. length row = unat (N (param st))) (omegasAll st ! k) \<and>
     unat (N (param st)) \<le> length (rndArray st ! k)"

subsection \<open>Invariants used in the proofs\<close>

text \<open>
  \<open>key\<close> sits in the bucket of \<open>domin\<close> in each of the \<^verbatim>\<open>L\<close> tables; and an index has the
  model of another and at least its bucket contents.
\<close>

definition holds_key :: "'f::{zero,plus,times,ord} itqLsh \<Rightarrow> u32 \<Rightarrow> 'f list \<Rightarrow> bool" where
  "holds_key st key domin \<longleftrightarrow>
     (\<forall>k < unat (L (param st)). \<exists>h ids.
        getHashVal st k domin = Some h \<and> k < length (tables st) \<and>
        map_find h (tables st ! k) = Some ids \<and> key \<in> set ids)"

definition grows :: "'f itqLsh \<Rightarrow> 'f itqLsh \<Rightarrow> bool" where
  "grows st st' \<longleftrightarrow>
     param st' = param st \<and> pcsAll st' = pcsAll st \<and> omegasAll st' = omegasAll st \<and>
     rndArray st' = rndArray st \<and> length (tables st') = length (tables st) \<and>
     (\<forall>k h ids. map_find h (tables st ! k) = Some ids \<longrightarrow>
        (\<exists>ids'. map_find h (tables st' ! k) = Some ids' \<and> set ids \<subseteq> set ids'))"

text \<open>
  The invariant of the buckets against a dataset: an id stored under \<open>b\<close> in table \<open>k\<close> is
  a row index whose row hashes to \<open>b\<close> in that table.
\<close>

definition buckets_agree :: "'f::{zero,plus,times,ord} itqLsh \<Rightarrow> 'f Matrix \<Rightarrow> bool" where
  "buckets_agree st data \<longleftrightarrow>
     (\<forall>k < length (tables st). \<forall>(b, ids) \<in> set (tables st ! k). \<forall>key \<in> set ids.
        unat key < getSize data \<and> getHashVal st k (rows data ! unat key) = Some b)"




definition maps_ordered :: "'f itqLsh \<Rightarrow> bool" where
  "maps_ordered st \<longleftrightarrow>
     (\<forall>t \<in> set (tables st).
        sorted_wrt (<) (map fst t) \<and> (\<forall>b \<in> fst ` set t. b < M (param st)))"


subsection \<open>A small index\<close>

text \<open>
  One table of two bits over vectors of dimension two, with integral entries: on these,
  float arithmetic is exact, so the examples run on \<open>int\<close>. \<open>ex_index\<close> has the standard
  basis as projection and rotation; \<open>ex_tables\<close> is the same index with given tables.
\<close>

definition ex_param :: Parameter where
  "ex_param = \<lparr>M = 8, L = 1, D = 2, N = 2, S = 2, I = 1\<rparr>"

definition ex_param2 :: Parameter where
  "ex_param2 = \<lparr>M = 2, L = 1, D = 2, N = 2, S = 2, I = 1\<rparr>"

definition ex_index :: "int itqLsh" where
  "ex_index = \<lparr>param = ex_param, pcsAll = [[[1, 0], [0, 1]]], omegasAll = [[[1, 0], [0, 1]]],
     rndArray = [[3, 6]], tables = [[]]\<rparr>"

definition ex_tables :: "bucket_map list \<Rightarrow> int itqLsh" where
  "ex_tables ts = ex_index\<lparr>tables := ts\<rparr>"

definition ex_data :: "int Matrix" where
  "ex_data = \<lparr>getDim = 2, rows = [[1, 1], [1, - 1], [- 1, 1]]\<rparr>"

text \<open>The file that \<^verbatim>\<open>save\<close> writes for \<open>ex_tables [[(1, [7]), (3, [9])]]\<close>.\<close>

definition ex_file :: "int cell list" where
  "ex_file = [U 8, U 1, U 2, U 2, U 2,
              U 3, U 6,
              U 2, U 1, U 1, U 7, U 3, U 1, U 9,
              F 1, F 0, F 1, F 0, F 0, F 1, F 0, F 1]"

text \<open>
  An environment for the examples: the casts between \<^verbatim>\<open>unsigned\<close> and the integers that
  stand for floats are the conversions, and the locals that are not initialised hold 0.
\<close>

definition ex_env :: "int env" where
  "ex_env = \<lparr>as_unsigned = word_of_int, as_float = uint, left_count = (\<lambda>i. 0),
     left_target = (\<lambda>i j. 0), left_length = (\<lambda>i j. 0)\<rparr>"

text \<open>
  A sampler for the examples: the generator is a counter, and a draw from \<open>[lo, hi]\<close> is
  \<open>lo\<close> plus the counter modulo the width of the range.
\<close>

definition ex_us :: "nat sampler" where
  "ex_us lo hi g = (lo + word_of_nat g mod (hi - lo + 1), Suc g)"

text \<open>
  Stand-ins for the Eigen routines and for the normal distribution in the examples: the
  product and the transpose of integer matrices, the identity as basis, and factors that are
  the matrix itself.
\<close>

definition ex_mul :: "int mat \<Rightarrow> int mat \<Rightarrow> int mat" where
  "ex_mul A B = map (\<lambda>row. map (\<lambda>col. sum_list (map2 (*) row col)) (transpose B)) A"

definition ex_lib :: "int eigen" where
  "ex_lib = \<lparr>pca_basis = (\<lambda>X n. [[1, 0], [0, 1]]), mat_mul = ex_mul,
     mat_transpose = transpose, svd_U = (\<lambda>X. X), svd_V = (\<lambda>X. X)\<rparr>"

definition ex_nd :: "nat \<Rightarrow> int \<times> nat" where
  "ex_nd g = (int g, Suc g)"

text \<open>
  The index after \<^verbatim>\<open>reset\<close> with generator 7, and the index that \<^verbatim>\<open>train\<close> makes of it on
  \<open>ex_data\<close>, with given tables.
\<close>

definition ex_reset :: "int itqLsh" where
  "ex_reset = reset ex_us 7 (fresh ex_param) ex_param"

definition ex_trained :: "bucket_map list \<Rightarrow> int itqLsh" where
  "ex_trained ts = \<lparr>param = ex_param, pcsAll = [[[1, 0], [0, 1]]],
     omegasAll = [[[4, 4], [4, 4]]], rndArray = [[7, 0]], tables = ts\<rparr>"

text \<open>
  The same index when \<^verbatim>\<open>reset\<close> ran twice before \<^verbatim>\<open>train\<close>, and the file that \<^verbatim>\<open>save\<close> writes
  for both with the tables that \<^verbatim>\<open>hash\<close> makes of \<open>ex_data\<close>.
\<close>

definition ex_twice :: "bucket_map list \<Rightarrow> int itqLsh" where
  "ex_twice ts = (ex_trained ts)\<lparr>rndArray := [[7, 0, 7, 0]]\<rparr>"


section \<open>Properties of the hasher\<close>

lemma ex_getHashVal: "getHashVal ex_index 0 [1, - 1] = Some 3"
  by (simp add: getHashVal_def ex_index_def ex_param_def vec_at_def)

text \<open>
  C3: when \<open>M \<ge> 1\<close>, the value that \<^verbatim>\<open>getHashVal(k, v)\<close> returns for a table \<open>k < L\<close> is at
  least 0 and below \<open>M\<close>.
\<close>

theorem getHashVal_range:
  assumes "1 \<le> M (param st)" and "k < unat (L (param st))"
    and "getHashVal st k domin = Some h"
  shows "0 \<le> h \<and> h < M (param st)"
  using assms(3)
  by (auto simp: getHashVal_def bind_eq_Some_conv word_mod_less_divisor word_neq_0_conv
      split: if_splits)

theorem getHashVal_range_witness:
  "1 \<le> M (param ex_index) \<and> 0 < unat (L (param ex_index)) \<and>
   getHashVal ex_index 0 [1, - 1] = Some 3 \<and> (0::u32) \<le> 3 \<and> 3 < M (param ex_index)"
  using getHashVal_range [of ex_index 0 "[1, - 1]" 3] ex_getHashVal
  by (simp add: ex_index_def ex_param_def)

section \<open>What \<^verbatim>\<open>insert\<close>, \<^verbatim>\<open>hash\<close> and \<^verbatim>\<open>query\<close> do to the index\<close>

lemma map_index_found: "map_find h t = Some ids \<Longrightarrow> map_index h t = (ids, t)"
  by (induction t) (auto split: if_splits)

lemma map_find_push_back_at:
  "map_find h' (push_back_at h key t) =
     (if h' = h then Some ((case map_find h t of None \<Rightarrow> [] | Some v \<Rightarrow> v) @ [key])
      else map_find h' t)"
  by (induction t) (auto simp: push_back_at_def split: prod.splits if_splits)

lemma set_push_back_at:
  "(b, ids) \<in> set (push_back_at h key t) \<Longrightarrow>
     (b, ids) \<in> set t \<or> (b = h \<and> (\<exists>v. ids = v @ [key] \<and> ((h, v) \<in> set t \<or> v = [])))"
  by (induction t) (auto simp: push_back_at_def split: prod.splits if_splits)

lemma bits_loop_cong:
  assumes "omegasAll st' = omegasAll st" and "rndArray st' = rndArray st"
  shows "bits_loop st' k p c i s = bits_loop st k p c i s"
  using assms by (induction c arbitrary: i s) (simp_all cong: if_cong)

lemma getHashVal_cong:
  assumes "param st' = param st" and "pcsAll st' = pcsAll st"
    and "omegasAll st' = omegasAll st" and "rndArray st' = rndArray st"
  shows "getHashVal st' k v = getHashVal st k v"
  unfolding getHashVal_def assms bits_loop_cong [OF assms(3,4)] ..

lemma getHashVal_tables_update [simp]:
  "getHashVal (st\<lparr>tables := t\<rparr>) k v = getHashVal st k v"
  by (rule getHashVal_cong) simp_all

lemma insert_loop_frame:
  "insert_loop c k key v st = Some st' \<Longrightarrow>
     param st' = param st \<and> pcsAll st' = pcsAll st \<and> omegasAll st' = omegasAll st \<and>
     rndArray st' = rndArray st \<and> length (tables st') = length (tables st)"
proof (induction c arbitrary: k st)
  case 0
  then show ?case by simp
next
  case (Suc c)
  from Suc.prems obtain h t where
    step: "insert_loop c (Suc k) key v (st\<lparr>tables := (tables st)[k := push_back_at h key t]\<rparr>) = Some st'"
    by (auto simp: bind_eq_Some_conv)
  from Suc.IH [OF step] show ?case by simp
qed

lemma insert_loop_tables:
  "insert_loop c k key v st = Some st' \<Longrightarrow>
     (\<forall>j. j < k \<or> k + c \<le> j \<longrightarrow> tables st' ! j = tables st ! j) \<and>
     (\<forall>j. k \<le> j \<and> j < k + c \<longrightarrow>
        (\<exists>h. getHashVal st j v = Some h \<and> j < length (tables st) \<and>
             tables st' ! j = push_back_at h key (tables st ! j)))"
proof (induction c arbitrary: k st)
  case 0
  then show ?case by auto
next
  case (Suc c)
  from Suc.prems obtain h where
    h: "getHashVal st k v = Some h" and len: "k < length (tables st)" and
    step: "insert_loop c (Suc k) key v
             (st\<lparr>tables := (tables st)[k := push_back_at h key (tables st ! k)]\<rparr>) = Some st'"
    by (auto simp: bind_eq_Some_conv vec_at_def split: if_splits)
  note IH = Suc.IH [OF step]
  show ?case
  proof (intro conjI allI impI)
    fix j assume "j < k \<or> k + Suc c \<le> j"
    then show "tables st' ! j = tables st ! j"
      using IH by auto
  next
    fix j assume j: "k \<le> j \<and> j < k + Suc c"
    show "\<exists>h. getHashVal st j v = Some h \<and> j < length (tables st) \<and>
             tables st' ! j = push_back_at h key (tables st ! j)"
    proof (cases "j = k")
      case True
      then show ?thesis using IH h len by auto
    next
      case False
      with j have "Suc k \<le> j \<and> j < Suc k + c" by simp
      with IH False show ?thesis by auto
    qed
  qed
qed

lemma query_loop_state:
  "query_loop c k v st out = Some (st', out') \<Longrightarrow> st' = st"
proof (induction c arbitrary: k out)
  case 0
  then show ?case by simp
next
  case (Suc c)
  from Suc.prems obtain h where
    h: "getHashVal st k v = Some h" and len: "k < length (tables st)"
    by (auto simp: bind_eq_Some_conv vec_at_def split: if_splits)
  show ?case
  proof (cases "map_find h (tables st ! k)")
    case None
    with Suc.prems h len have "query_loop c (Suc k) v st out = Some (st', out')"
      by (simp add: vec_at_def)
    then show ?thesis by (rule Suc.IH)
  next
    case (Some ids)
    with Suc.prems h len have "query_loop c (Suc k) v st (out @ ids) = Some (st', out')"
      by (simp add: vec_at_def map_index_found)
    then show ?thesis by (rule Suc.IH)
  qed
qed

lemma query_loop_out:
  "query_loop c k v st out = Some (st', out') \<Longrightarrow>
     set out \<subseteq> set out' \<and>
     (\<forall>j h ids. k \<le> j \<and> j < k + c \<and> getHashVal st j v = Some h \<and>
        map_find h (tables st ! j) = Some ids \<longrightarrow> set ids \<subseteq> set out')"
proof (induction c arbitrary: k out)
  case 0
  then show ?case by auto
next
  case (Suc c)
  from Suc.prems obtain h where
    h: "getHashVal st k v = Some h" and len: "k < length (tables st)"
    by (auto simp: bind_eq_Some_conv vec_at_def split: if_splits)
  define out1 where
    "out1 = out @ (case map_find h (tables st ! k) of None \<Rightarrow> [] | Some ids \<Rightarrow> ids)"
  have "query_loop c (Suc k) v st out1 = Some (st', out')"
    using Suc.prems h len
    by (cases "map_find h (tables st ! k)") (simp_all add: vec_at_def map_index_found out1_def)
  from Suc.IH [OF this] have
    sub: "set out1 \<subseteq> set out'" and
    rest: "\<And>j h ids. Suc k \<le> j \<Longrightarrow> j < Suc k + c \<Longrightarrow> getHashVal st j v = Some h \<Longrightarrow>
             map_find h (tables st ! j) = Some ids \<Longrightarrow> set ids \<subseteq> set out'"
    by blast+
  show ?case
  proof (intro conjI allI impI)
    show "set out \<subseteq> set out'" using sub by (auto simp: out1_def)
  next
    fix j h' ids
    assume a: "k \<le> j \<and> j < k + Suc c \<and> getHashVal st j v = Some h' \<and>
      map_find h' (tables st ! j) = Some ids"
    show "set ids \<subseteq> set out'"
    proof (cases "j = k")
      case True
      with a h have "set ids \<subseteq> set out1" by (auto simp: out1_def)
      with sub show ?thesis by blast
    next
      case False
      with a have "Suc k \<le> j" "j < Suc k + c" by simp_all
      with a show ?thesis using rest by blast
    qed
  qed
qed

lemma query_loop_defined:
  "(\<forall>j. k \<le> j \<and> j < k + c \<longrightarrow> getHashVal st j v \<noteq> None \<and> j < length (tables st)) \<Longrightarrow>
     \<exists>out'. query_loop c k v st out = Some (st, out')"
proof (induction c arbitrary: k out)
  case 0
  then show ?case by simp
next
  case (Suc c)
  from Suc.prems obtain h where
    h: "getHashVal st k v = Some h" and len: "k < length (tables st)"
    by (auto simp: vec_at_def)
  have rest: "\<forall>j. Suc k \<le> j \<and> j < Suc k + c \<longrightarrow> getHashVal st j v \<noteq> None \<and> j < length (tables st)"
    using Suc.prems by simp
  show ?case
  proof (cases "map_find h (tables st ! k)")
    case None
    with h len Suc.IH [OF rest, of out] show ?thesis
      by (simp add: vec_at_def)
  next
    case (Some ids)
    with h len Suc.IH [OF rest, of "out @ ids"] show ?thesis
      by (simp add: vec_at_def map_index_found)
  qed
qed

lemma query_state: "query st v = Some (st', out) \<Longrightarrow> st' = st"
  unfolding query_def by (rule query_loop_state)

lemma grows_refl: "grows st st"
  by (auto simp: grows_def)

lemma grows_trans: "grows st1 st2 \<Longrightarrow> grows st2 st3 \<Longrightarrow> grows st1 st3"
  unfolding grows_def
  by (elim conjE, intro conjI allI impI; (simp; fail)?) (meson subset_trans)

lemma grows_getHashVal: "grows st st' \<Longrightarrow> getHashVal st' k v = getHashVal st k v"
  by (rule getHashVal_cong) (simp_all add: grows_def)

lemma insert_key_tables:
  assumes "insert_key st key v = Some st'"
  shows "k < unat (L (param st)) \<Longrightarrow>
           \<exists>h. getHashVal st k v = Some h \<and> k < length (tables st) \<and>
                tables st' ! k = push_back_at h key (tables st ! k)"
    and "unat (L (param st)) \<le> k \<Longrightarrow> tables st' ! k = tables st ! k"
  using insert_loop_tables [OF assms [unfolded insert_key_def]] by auto

lemma insert_key_frame:
  assumes "insert_key st key v = Some st'"
  shows "param st' = param st" "pcsAll st' = pcsAll st" "omegasAll st' = omegasAll st"
    "rndArray st' = rndArray st" "length (tables st') = length (tables st)"
  using insert_loop_frame [OF assms [unfolded insert_key_def]] by simp_all

lemma insert_key_grows:
  assumes "insert_key st key v = Some st'"
  shows "grows st st'"
proof -
  have "\<exists>ids'. map_find h (tables st' ! k) = Some ids' \<and> set ids \<subseteq> set ids'"
    if "map_find h (tables st ! k) = Some ids" for k h ids
  proof (cases "k < unat (L (param st))")
    case True
    from insert_key_tables(1) [OF assms True] obtain h' where
      "tables st' ! k = push_back_at h' key (tables st ! k)" by blast
    with that show ?thesis by (auto simp: map_find_push_back_at)
  next
    case False
    with insert_key_tables(2) [OF assms, of k] that show ?thesis by auto
  qed
  with insert_key_frame [OF assms] show ?thesis
    unfolding grows_def by blast
qed

lemma insert_key_holds:
  assumes "insert_key st key v = Some st'"
  shows "holds_key st' key v"
  unfolding holds_key_def
proof (intro allI impI)
  fix k assume "k < unat (L (param st'))"
  then have k: "k < unat (L (param st))" by (simp add: insert_key_frame [OF assms])
  from insert_key_tables(1) [OF assms k] obtain h where
    h: "getHashVal st k v = Some h" "k < length (tables st)"
       "tables st' ! k = push_back_at h key (tables st ! k)" by blast
  have "getHashVal st' k v = Some h"
    using h(1) grows_getHashVal [OF insert_key_grows [OF assms]] by simp
  moreover have "k < length (tables st')"
    using h(2) by (simp add: insert_key_frame [OF assms])
  moreover have "map_find h (tables st' ! k) =
      Some ((case map_find h (tables st ! k) of None \<Rightarrow> [] | Some v \<Rightarrow> v) @ [key])"
    by (simp add: h(3) map_find_push_back_at)
  ultimately show "\<exists>h ids. getHashVal st' k v = Some h \<and> k < length (tables st') \<and>
      map_find h (tables st' ! k) = Some ids \<and> key \<in> set ids"
    by auto
qed

lemma holds_key_grows:
  assumes "holds_key st key v" and "grows st st'"
  shows "holds_key st' key v"
  unfolding holds_key_def
proof (intro allI impI)
  fix k assume "k < unat (L (param st'))"
  with assms(2) have "k < unat (L (param st))" by (simp add: grows_def)
  with assms(1) obtain h ids where
    h: "getHashVal st k v = Some h" "k < length (tables st)"
       "map_find h (tables st ! k) = Some ids" "key \<in> set ids"
    unfolding holds_key_def by blast
  from assms(2) h(3) obtain ids' where
    "map_find h (tables st' ! k) = Some ids'" "set ids \<subseteq> set ids'"
    unfolding grows_def by blast
  with h assms(2) grows_getHashVal [OF assms(2), of k v]
  show "\<exists>h ids. getHashVal st' k v = Some h \<and> k < length (tables st') \<and>
      map_find h (tables st' ! k) = Some ids \<and> key \<in> set ids"
    by (auto simp: grows_def)
qed

lemma hash_loop_grows: "hash_loop c i data st = Some st' \<Longrightarrow> grows st st'"
proof (induction c arbitrary: i st)
  case 0
  then show ?case by (simp add: grows_refl)
next
  case (Suc c)
  then obtain row st1 where
    "insert_key st (word_of_nat i) row = Some st1" "hash_loop c (Suc i) data st1 = Some st'"
    by (auto simp: bind_eq_Some_conv)
  then show ?case
    using Suc.IH insert_key_grows grows_trans by blast
qed

lemma hash_loop_holds:
  "hash_loop c i data st = Some st' \<Longrightarrow> i \<le> j \<Longrightarrow> j < i + c \<Longrightarrow>
     j < length (rows data) \<and> holds_key st' (word_of_nat j) (rows data ! j)"
proof (induction c arbitrary: i st)
  case 0
  then show ?case by simp
next
  case (Suc c)
  from Suc.prems(1) obtain st1 where
    i: "i < length (rows data)" and
    ins: "insert_key st (word_of_nat i) (rows data ! i) = Some st1" and
    rest: "hash_loop c (Suc i) data st1 = Some st'"
    by (auto simp: bind_eq_Some_conv vec_at_def split: if_splits)
  show ?case
  proof (cases "j = i")
    case True
    with i insert_key_holds [OF ins] holds_key_grows [OF _ hash_loop_grows [OF rest]]
    show ?thesis by blast
  next
    case False
    with Suc.prems have "Suc i \<le> j" "j < Suc i + c" by simp_all
    from Suc.IH [OF rest this] show ?thesis .
  qed
qed

lemma apply_op_grows: "apply_op st x = Some st' \<Longrightarrow> grows st st'"
  by (cases x) (auto simp: hash_def intro: insert_key_grows hash_loop_grows)

lemma run_ops_grows: "run_ops st xs = Some st' \<Longrightarrow> grows st st'"
proof (induction xs arbitrary: st)
  case Nil
  then show ?case by (simp add: grows_refl)
next
  case (Cons x xs)
  then obtain st1 where "apply_op st x = Some st1" "run_ops st1 xs = Some st'"
    by (auto simp: bind_eq_Some_conv)
  then show ?case
    using Cons.IH apply_op_grows grows_trans by blast
qed

lemma query_holds_key:
  assumes "holds_key st key v" and "1 \<le> L (param st)"
  shows "\<exists>out. query st v = Some (st, out) \<and> key \<in> set out"
proof -
  have "\<forall>j. 0 \<le> j \<and> j < 0 + unat (L (param st)) \<longrightarrow>
      getHashVal st j v \<noteq> None \<and> j < length (tables st)"
    using assms(1) unfolding holds_key_def by fastforce
  from query_loop_defined [OF this, of "[]"] obtain out where
    q: "query st v = Some (st, out)" by (auto simp: query_def)
  have "0 < unat (L (param st))"
    using assms(2) by (simp add: word_le_nat_alt)
  with assms(1) obtain h ids where
    h: "getHashVal st 0 v = Some h" "map_find h (tables st ! 0) = Some ids" "key \<in> set ids"
    unfolding holds_key_def by blast
  from query_loop_out [OF q [unfolded query_def]] h \<open>0 < unat (L (param st))\<close>
  have "set ids \<subseteq> set out" by auto
  with q h(3) show ?thesis by blast
qed

subsection \<open>The small index at work\<close>

lemma ex_param_simps [simp]:
  "M ex_param = 8" "L ex_param = 1" "D ex_param = 2" "N ex_param = 2" "S ex_param = 2"
  "I ex_param = 1"
  by (simp_all add: ex_param_def)

lemma ex_tables_simps [simp]:
  "param (ex_tables ts) = ex_param" "tables (ex_tables ts) = ts"
  "pcsAll (ex_tables ts) = [[[1, 0], [0, 1]]]" "omegasAll (ex_tables ts) = [[[1, 0], [0, 1]]]"
  "rndArray (ex_tables ts) = [[3, 6]]"
  by (simp_all add: ex_tables_def ex_index_def)

lemma ex_tables_update [simp]: "ex_tables ts\<lparr>tables := ts'\<rparr> = ex_tables ts'"
  by (simp add: ex_tables_def)

lemma ex_getHashVal_tables:
  "getHashVal (ex_tables ts) 0 [1, 1] = Some 1"
  "getHashVal (ex_tables ts) 0 [1, - 1] = Some 3"
  "getHashVal (ex_tables ts) 0 [- 1, 1] = Some 6"
  by (simp_all add: getHashVal_def vec_at_def)

lemma ex_insert1: "insert_key (ex_tables [[]]) 7 [1, 1] = Some (ex_tables [[(1, [7])]])"
  by (simp add: insert_key_def ex_getHashVal_tables vec_at_def push_back_at_def)

lemma ex_insert2:
  "insert_key (ex_tables [[(1, [7])]]) 9 [1, - 1] = Some (ex_tables [[(1, [7]), (3, [9])]])"
  by (simp add: insert_key_def ex_getHashVal_tables vec_at_def push_back_at_def)

lemma ex_query1:
  "query (ex_tables [[(1, [7]), (3, [9])]]) [1, 1] = Some (ex_tables [[(1, [7]), (3, [9])]], [7])"
  by (simp add: query_def ex_getHashVal_tables vec_at_def)

lemma ex_query2:
  "query (ex_tables [[(1, [7]), (3, [9])]]) [- 1, 1] = Some (ex_tables [[(1, [7]), (3, [9])]], [])"
  by (simp add: query_def ex_getHashVal_tables vec_at_def)

lemma ex_hash: "hash (ex_tables [[]]) ex_data = Some (ex_tables [[(1, [0]), (3, [1]), (6, [2])]])"
  by (simp add: hash_def getSize_def ex_data_def insert_key_def ex_getHashVal_tables vec_at_def
      push_back_at_def numeral_3_eq_3)

section \<open>Candidate completeness\<close>

text \<open>
  C1: a pair \<open>(key, v)\<close> was added by \<^verbatim>\<open>insert\<close>, directly or as row \<open>i\<close> of a \<^verbatim>\<open>hash\<close>, and
  only insertions followed (they leave the model state as it is). Then, with \<open>L \<ge> 1\<close>,
  \<^verbatim>\<open>query(v, scanner)\<close> returns and the scanner has received \<open>key\<close>.
\<close>

theorem query_finds_inserted:
  assumes "insert_key st0 key v = Some st1 \<or>
      (\<exists>data i. hash st0 data = Some st1 \<and> i < getSize data \<and>
         key = word_of_nat i \<and> v = rows data ! i)"
    and "run_ops st1 ops = Some st"
    and "1 \<le> L (param st)"
  shows "\<exists>out. query st v = Some (st, out) \<and> key \<in> set out"
proof -
  have "holds_key st1 key v"
    using assms(1) insert_key_holds hash_loop_holds [of _ 0 _ st0 st1]
    by (auto simp: hash_def getSize_def)
  with run_ops_grows [OF assms(2)] have "holds_key st key v"
    using holds_key_grows by blast
  from query_holds_key [OF this assms(3)] show ?thesis .
qed

theorem query_finds_inserted_witness:
  "insert_key (ex_tables [[]]) 7 [1, 1] = Some (ex_tables [[(1, [7])]]) \<and>
   run_ops (ex_tables [[(1, [7])]]) [Insert 9 [1, - 1]] = Some (ex_tables [[(1, [7]), (3, [9])]]) \<and>
   1 \<le> L (param (ex_tables [[(1, [7]), (3, [9])]])) \<and>
   (\<exists>out. query (ex_tables [[(1, [7]), (3, [9])]]) [1, 1]
            = Some (ex_tables [[(1, [7]), (3, [9])]], out) \<and> 7 \<in> set out)"
  using query_finds_inserted [of "ex_tables [[]]" 7 "[1, 1]" "ex_tables [[(1, [7])]]"
      "[Insert 9 [1, - 1]]" "ex_tables [[(1, [7]), (3, [9])]]"]
  by (simp add: ex_insert1 ex_insert2)

section \<open>Queries leave the index alone\<close>

lemma query_defined:
  assumes "\<forall>k < unat (L (param st)). getHashVal st k domin \<noteq> None \<and> k < length (tables st)"
  shows "\<exists>out. query st domin = Some (st, out)"
  unfolding query_def using assms by (intro query_loop_defined) simp

text \<open>
  C10: a \<^verbatim>\<open>query\<close> returns the index as it was: the parameters, \<^verbatim>\<open>rndArray\<close>, \<^verbatim>\<open>pcsAll\<close>,
  \<^verbatim>\<open>omegasAll\<close> and every table. \<^verbatim>\<open>tables[k][hashVal]\<close> is evaluated under the guard
  \<^verbatim>\<open>find(hashVal) != end()\<close> only, so it never adds a bucket; the witness queries a vector
  whose bucket, 6, is not populated.
\<close>

theorem query_read_only:
  assumes "query st domin = Some (st', out)"
  shows "st' = st"
  using assms by (rule query_state)

theorem query_read_only_witness:
  "query (ex_tables [[(1, [7]), (3, [9])]]) [- 1, 1] = Some (ex_tables [[(1, [7]), (3, [9])]], []) \<and>
   map_find 6 (tables (ex_tables [[(1, [7]), (3, [9])]])  ! 0) = None"
  using query_read_only [of "ex_tables [[(1, [7]), (3, [9])]]" "[- 1, 1]"
      "ex_tables [[(1, [7]), (3, [9])]]" "[]"]
  by (simp add: ex_query2)

section \<open>Buckets agree with the hasher\<close>

lemma unat_key_of_index: "i < 2 ^ 32 \<Longrightarrow> unat (word_of_nat i :: u32) = i"
  by (simp add: unat_of_nat)

lemma insert_key_agree:
  assumes agree: "buckets_agree st data"
    and i: "i < getSize data" and size: "getSize data \<le> 2 ^ 32"
    and ins: "insert_key st (word_of_nat i) (rows data ! i) = Some st'"
  shows "buckets_agree st' data"
  unfolding buckets_agree_def
proof (intro allI impI ballI, clarify)
  fix k b ids key
  assume k': "k < length (tables st')" and mem: "(b, ids) \<in> set (tables st' ! k)"
    and key: "key \<in> set ids"
  have k: "k < length (tables st)" using k' by (simp add: insert_key_frame [OF ins])
  have same: "getHashVal st' k v = getHashVal st k v" for v
    by (rule grows_getHashVal [OF insert_key_grows [OF ins]])
  have old: "unat key < getSize data \<and> getHashVal st k (rows data ! unat key) = Some b"
    if "(b, v) \<in> set (tables st ! k)" "key \<in> set v" for v
    using agree k that unfolding buckets_agree_def by blast
  have ui: "unat (word_of_nat i :: u32) = i"
    using i size by (intro unat_key_of_index) simp
  show "unat key < getSize data \<and> getHashVal st' k (rows data ! unat key) = Some b"
  proof (cases "k < unat (L (param st))")
    case False
    with insert_key_tables(2) [OF ins, of k] mem have "(b, ids) \<in> set (tables st ! k)" by simp
    with old key same show ?thesis by simp
  next
    case True
    from insert_key_tables(1) [OF ins True] obtain h where
      h: "getHashVal st k (rows data ! i) = Some h"
         "tables st' ! k = push_back_at h (word_of_nat i) (tables st ! k)" by blast
    from set_push_back_at [OF mem [unfolded h(2)]]
    consider "(b, ids) \<in> set (tables st ! k)"
      | v where "b = h" "ids = v @ [word_of_nat i]" "(h, v) \<in> set (tables st ! k) \<or> v = []"
      by blast
    then show ?thesis
    proof cases
      case 1
      with old key same show ?thesis by simp
    next
      case 2
      show ?thesis
      proof (cases "key \<in> set v")
        case True
        with 2 old [of v] same show ?thesis by auto
      next
        case False
        with key 2 have "key = word_of_nat i" by simp
        with ui i h(1) 2(1) same show ?thesis by simp
      qed
    qed
  qed
qed

lemma hash_loop_agree:
  "hash_loop c i data st = Some st' \<Longrightarrow> buckets_agree st data \<Longrightarrow>
     getSize data \<le> 2 ^ 32 \<Longrightarrow> buckets_agree st' data"
proof (induction c arbitrary: i st)
  case 0
  then show ?case by simp
next
  case (Suc c)
  from Suc.prems(1) obtain st1 where
    i: "i < getSize data" and
    ins: "insert_key st (word_of_nat i) (rows data ! i) = Some st1" and
    rest: "hash_loop c (Suc i) data st1 = Some st'"
    by (auto simp: bind_eq_Some_conv vec_at_def getSize_def split: if_splits)
  from insert_key_agree [OF Suc.prems(2) i Suc.prems(3) ins] Suc.IH [OF rest] Suc.prems(3)
  show ?case by blast
qed

lemma insert_rows_agree:
  "insert_rows st data is = Some st' \<Longrightarrow> buckets_agree st data \<Longrightarrow>
     getSize data \<le> 2 ^ 32 \<Longrightarrow> buckets_agree st' data"
proof (induction "is" arbitrary: st)
  case Nil
  then show ?case by simp
next
  case (Cons i "is")
  from Cons.prems(1) obtain st1 where
    i: "i < getSize data" and
    ins: "insert_key st (word_of_nat i) (rows data ! i) = Some st1" and
    rest: "insert_rows st1 data is = Some st'"
    by (auto simp: bind_eq_Some_conv vec_at_def getSize_def split: if_splits)
  from insert_key_agree [OF Cons.prems(2) i Cons.prems(3) ins] Cons.IH [OF rest] Cons.prems(3)
  show ?case by blast
qed

lemma insert_rows_grows: "insert_rows st data is = Some st' \<Longrightarrow> grows st st'"
proof (induction "is" arbitrary: st)
  case Nil
  then show ?case by (simp add: grows_refl)
next
  case (Cons i "is")
  then obtain row st1 where
    "insert_key st (word_of_nat i) row = Some st1" "insert_rows st1 data is = Some st'"
    by (auto simp: bind_eq_Some_conv)
  then show ?case
    using Cons.IH insert_key_grows grows_trans by blast
qed

lemma buckets_agree_empty:
  "tables st = replicate n [] \<Longrightarrow> buckets_agree st data"
  by (simp add: buckets_agree_def)

text \<open>
  C5, as far as it holds: \<^verbatim>\<open>hash(data)\<close> ran on an index whose \<^verbatim>\<open>L\<close> tables hold no bucket
  yet, as they are after \<^verbatim>\<open>reset\<close> and \<^verbatim>\<open>train\<close> on a new index, and the calls that followed
  were \<^verbatim>\<open>insert(i, data[i])\<close>: each row under its own index. Then every id stored under a
  bucket \<open>b\<close> of a table \<open>k < L\<close> is a row index of \<open>data\<close>, and \<^verbatim>\<open>getHashVal(k, data[id])\<close> is
  \<open>b\<close>. The ids of \<^verbatim>\<open>hash\<close> are 32-bit, so the dataset has at most \<open>2 ^ 32\<close> rows. Without
  the two conditions the property fails, as the last section shows.
\<close>

theorem hash_buckets_agree:
  assumes "tables st0 = replicate (unat (L (param st0))) []"
    and "getSize data \<le> 2 ^ 32"
    and "hash st0 data = Some st1"
    and "insert_rows st1 data is = Some st"
    and "k < unat (L (param st))" and "(b, ids) \<in> set (tables st ! k)" and "key \<in> set ids"
  shows "unat key < getSize data \<and> getHashVal st k (rows data ! unat key) = Some b"
proof -
  have g1: "grows st0 st1" using assms(3) by (auto simp: hash_def intro: hash_loop_grows)
  have g2: "grows st1 st" using assms(4) by (rule insert_rows_grows)
  have "buckets_agree st data"
    using buckets_agree_empty [OF assms(1)] assms(2,3,4) hash_loop_agree insert_rows_agree
    unfolding hash_def by blast
  moreover have "k < length (tables st)"
    using g1 g2 assms(1,5) by (simp add: grows_def)
  ultimately show ?thesis
    using assms(6,7) unfolding buckets_agree_def by blast
qed

lemma ex_data_simps [simp]:
  "rows ex_data = [[1, 1], [1, - 1], [- 1, 1]]" "getDim ex_data = 2" "getSize ex_data = 3"
  by (simp_all add: ex_data_def getSize_def)

lemma ex_insert_rows:
  "insert_rows (ex_tables [[(1, [0]), (3, [1]), (6, [2])]]) ex_data [1]
     = Some (ex_tables [[(1, [0]), (3, [1, 1]), (6, [2])]])"
  by (simp add: insert_key_def ex_getHashVal_tables vec_at_def push_back_at_def)

theorem hash_buckets_agree_witness:
  "tables (ex_tables [[]]) = replicate (unat (L (param (ex_tables [[]])))) [] \<and>
   getSize ex_data \<le> 2 ^ 32 \<and>
   hash (ex_tables [[]]) ex_data = Some (ex_tables [[(1, [0]), (3, [1]), (6, [2])]]) \<and>
   insert_rows (ex_tables [[(1, [0]), (3, [1]), (6, [2])]]) ex_data [1]
     = Some (ex_tables [[(1, [0]), (3, [1, 1]), (6, [2])]]) \<and>
   0 < unat (L (param (ex_tables [[(1, [0]), (3, [1, 1]), (6, [2])]]))) \<and>
   (3, [1, 1]) \<in> set (tables (ex_tables [[(1, [0]), (3, [1, 1]), (6, [2])]]) ! 0) \<and>
   (1::u32) \<in> set [1, 1] \<and>
   unat (1::u32) < getSize ex_data \<and>
   getHashVal (ex_tables [[(1, [0]), (3, [1, 1]), (6, [2])]]) 0 (rows ex_data ! unat (1::u32))
     = Some 3"
  using hash_buckets_agree [OF _ _ ex_hash ex_insert_rows, of 0 3 "[1, 1]" 1]
    ex_hash ex_insert_rows
  by simp

section \<open>The hasher computes the hash of the specification\<close>

lemma dot_acc_foldl:
  "length ws \<le> length xs \<Longrightarrow>
     dot_acc acc xs ws = Some (foldl (+) acc (map (\<lambda>j. xs ! j * ws ! j) [0..<length ws]))"
proof (induction acc xs ws rule: dot_acc.induct)
  case (3 acc x xs w ws)
  then show ?case
    by (simp add: map_upt_Suc del: upt_Suc)
qed simp_all

lemma project_foldl:
  "\<forall>row \<in> set rws. length row \<le> length v \<Longrightarrow>
     project v rws =
       Some (map (\<lambda>row. foldl (+) 0 (map (\<lambda>j. v ! j * row ! j) [0..<length row])) rws)"
  by (induction rws) (simp_all add: dot_acc_foldl)

lemma bits_loop_foldl:
  assumes "k < length (omegasAll st)" and "k < length (rndArray st)"
    and "\<forall>i'. i \<le> i' \<and> i' < i + c \<longrightarrow>
           i' < length (omegasAll st ! k) \<and> length (omegasAll st ! k ! i') \<le> length p \<and>
           i' < length (rndArray st ! k)"
  shows "bits_loop st k p c i s =
     Some (foldl (+) s (map (\<lambda>i. rndArray st ! k ! i)
       (filter (\<lambda>i. 0 < foldl (+) 0 (map (\<lambda>j. p ! j * omegasAll st ! k ! i ! j)
                                       [0..<length (omegasAll st ! k ! i)]))
          [i..<i + c])))"
  using assms(3)
proof (induction c arbitrary: i s)
  case 0
  then show ?case by simp
next
  case (Suc c)
  have here: "i < length (omegasAll st ! k)" "length (omegasAll st ! k ! i) \<le> length p"
    "i < length (rndArray st ! k)"
    using Suc.prems by auto
  have rest: "\<forall>i'. Suc i \<le> i' \<and> i' < Suc i + c \<longrightarrow>
           i' < length (omegasAll st ! k) \<and> length (omegasAll st ! k ! i') \<le> length p \<and>
           i' < length (rndArray st ! k)"
    using Suc.prems by auto
  have split: "[i..<i + Suc c] = i # [Suc i..<Suc i + c]"
    by (simp add: upt_conv_Cons)
  show ?case
    unfolding split
    using here assms(1,2) Suc.IH [OF rest]
    by (simp add: vec_at_def dot_acc_foldl)
qed

text \<open>
  C2: on a table \<open>k < L\<close> of the trained shape and a vector of length \<open>D\<close>, with \<open>M \<ge> 1\<close>,
  \<^verbatim>\<open>getHashVal(k, v)\<close> returns the hash of the specification: the wrapping sum of the
  \<open>rnd[k][i]\<close> over the bits with \<open>s[i] > 0\<close>, modulo \<open>M\<close>, where \<open>p\<close> is the projection of
  the vector as it is given (no mean is subtracted) and \<open>s\<close> its rotation.
\<close>

theorem getHashVal_spec:
  assumes k: "k < unat (L (param st))" and shape: "trained_table st k"
    and v: "length v = unat (D (param st))" and m: "1 \<le> M (param st)"
  shows "getHashVal st k v = Some (spec_hash st k v)"
proof -
  define pcs where "pcs = pcsAll st ! k"
  define oms where "oms = omegasAll st ! k"
  define n where "n = unat (N (param st))"
  define p where
    "p = map (\<lambda>row. foldl (+) 0 (map (\<lambda>j. v ! j * row ! j) [0..<length row])) pcs"
  from shape have lens: "k < length (pcsAll st)" "k < length (omegasAll st)"
    "k < length (rndArray st)" "length pcs = n" "length oms = n" "n \<le> length (rndArray st ! k)"
    and prow: "\<And>i. i < n \<Longrightarrow> length (pcs ! i) = unat (D (param st))"
    and orow: "\<And>i. i < n \<Longrightarrow> length (oms ! i) = n"
    by (auto simp: trained_table_def pcs_def oms_def n_def list_all_length)
  have "\<forall>row \<in> set pcs. length row \<le> length v"
    using prow lens(4) v by (auto simp: in_set_conv_nth)
  then have proj: "project v pcs = Some p"
    unfolding p_def by (rule project_foldl)
  have plen: "length p = n" by (simp add: p_def lens)
  have pval: "p ! i = spec_p st k v i" if "i < n" for i
    using that prow [OF that] lens(4) by (simp add: p_def spec_p_def spec_sum_def pcs_def)
  have sval: "foldl (+) 0 (map (\<lambda>j. p ! j * omegasAll st ! k ! i ! j)
      [0..<length (omegasAll st ! k ! i)]) = spec_s st k v i" if "i < n" for i
  proof -
    have eq: "map (\<lambda>j. p ! j * oms ! i ! j) [0..<n]
        = map (\<lambda>j. spec_p st k v j * oms ! i ! j) [0..<n]"
      by (rule map_cong) (simp_all add: pval)
    have len: "length (omegasAll st ! k ! i) = n"
      using orow [OF that] by (simp add: oms_def)
    show ?thesis
      unfolding len spec_s_def spec_sum_def
      using eq unfolding oms_def n_def
      by (rule arg_cong [where f = "foldl (+) 0"])
  qed
  have "\<forall>i'. 0 \<le> i' \<and> i' < 0 + n \<longrightarrow>
           i' < length (omegasAll st ! k) \<and> length (omegasAll st ! k ! i') \<le> length p \<and>
           i' < length (rndArray st ! k)"
    using lens orow plen by (auto simp: oms_def)
  from bits_loop_foldl [OF lens(2,3) this, of 0]
  have "bits_loop st k p n 0 0 =
     Some (foldl (+) 0 (map (\<lambda>i. rndArray st ! k ! i)
       (filter (\<lambda>i. 0 < foldl (+) 0 (map (\<lambda>j. p ! j * omegasAll st ! k ! i ! j)
                                       [0..<length (omegasAll st ! k ! i)])) [0..<n])))"
    by simp
  also have "filter (\<lambda>i. 0 < foldl (+) 0 (map (\<lambda>j. p ! j * omegasAll st ! k ! i ! j)
                                       [0..<length (omegasAll st ! k ! i)])) [0..<n]
      = filter (\<lambda>i. 0 < spec_s st k v i) [0..<n]"
    by (rule filter_cong) (simp_all add: sval)
  finally have bits: "bits_loop st k p n 0 0 =
     Some (spec_sum (\<lambda>i. rndArray st ! k ! i) (filter (\<lambda>i. 0 < spec_s st k v i) [0..<n]))"
    by (simp add: spec_sum_def)
  have "M (param st) \<noteq> 0" using m by auto
  then show ?thesis
    using lens(1) proj bits plen
    by (simp add: getHashVal_def vec_at_def pcs_def spec_hash_def n_def)
qed

lemma ex_spec_hash: "spec_hash ex_index 0 [1, - 1] = 3"
  by code_simp

theorem getHashVal_spec_witness:
  "0 < unat (L (param ex_index)) \<and> trained_table ex_index 0 \<and>
   length [1, - 1 :: int] = unat (D (param ex_index)) \<and> 1 \<le> M (param ex_index) \<and>
   getHashVal ex_index 0 [1, - 1] = Some (spec_hash ex_index 0 [1, - 1]) \<and>
   spec_hash ex_index 0 [1, - 1] = 3"
  using getHashVal_spec [of 0 ex_index "[1, - 1]"] ex_spec_hash
  by (simp add: trained_table_def ex_index_def ex_param_def)

section \<open>The sign convention\<close>






text \<open>
  The rotation that \<^verbatim>\<open>train\<close> stores for table \<open>k\<close> is the outcome of the ITQ iteration,
  \<^verbatim>\<open>param.I\<close> rounds of it from the left factor of the random matrix.
\<close>

lemma train_table_rotation:
  assumes "train_table lib us nd data st k g = Some (st', g')"
  shows "\<exists>mat_c R0. store_rows (itq_loop lib (unat (I (param st))) mat_c (svd_U lib R0))
            (unat (N (param st))) (unat (N (param st))) 0 = Some (omegasAll st' ! k)"
  using assms unfolding train_table_def
  apply (clarsimp simp: bind_eq_Some_conv Let_def case_prod_beta split: if_splits)
  apply (rule exI, rule exI, assumption)
  done


lemma ex_transpose: "transpose [[a, b], [c, d]] = [[a, c], [b, d]]"
  by (simp add: transpose.simps)

lemma ex_mul2:
  "ex_mul [[a, b], [c, d]] [[e, f], [g, h]]
     = [[a * e + b * g, a * f + b * h], [c * e + d * g, c * f + d * h]]"
  by (simp add: ex_mul_def ex_transpose)


section \<open>\<^verbatim>\<open>reset\<close>\<close>

lemma resize_vec_length [simp]: "length (resize_vec n d xs) = n"
  by (simp add: resize_vec_def)

lemma resize_vec_Nil [simp]: "resize_vec n d [] = replicate n d"
  by (simp add: resize_vec_def)


lemma push_samples_set:
  assumes "\<And>g. fst (us 0 hi g) \<le> hi"
  shows "set (fst (push_samples us hi c row g)) \<subseteq> set row \<union> {r. r \<le> hi}"
proof (induction c arbitrary: row g)
  case 0
  then show ?case by simp
next
  case (Suc c)
  obtain r g' where d: "us 0 hi g = (r, g')" by (cases "us 0 hi g")
  with assms [of g] have "r \<le> hi" by simp
  with Suc [of "row @ [r]" g'] d show ?case by auto
qed

lemma fill_rnd_length [simp]: "length (fill_rnd us hi n rs g) = length rs"
  by (induction rs arbitrary: g) (simp_all split: prod.splits)


lemma fill_rnd_nth_set:
  assumes "\<And>g. fst (us 0 hi g) \<le> hi"
  shows "k < length rs \<Longrightarrow> set (fill_rnd us hi n rs g ! k) \<subseteq> set (rs ! k) \<union> {r. r \<le> hi}"
proof (induction rs arbitrary: g k)
  case Nil
  then show ?case by simp
next
  case (Cons row rs)
  obtain row' g' where p: "push_samples us hi n row g = (row', g')"
    by (cases "push_samples us hi n row g")
  with push_samples_set [of us hi n row g, OF assms] have "set row' \<subseteq> set row \<union> {r. r \<le> hi}"
    by simp
  with Cons p show ?case by (cases k) simp_all
qed


lemma reset_fresh_range:
  fixes st :: "'f itqLsh"
  assumes "st = reset us rng (fresh p0) p" and "1 \<le> M p"
    and "\<And>lo hi g. lo \<le> hi \<Longrightarrow> lo \<le> fst (us lo hi g) \<and> fst (us lo hi g) \<le> hi"
    and "k < unat (L p)" and "r \<in> set (rndArray st ! k)"
  shows "r < M p"
proof -
  have "set (rndArray st ! k) \<subseteq> set (replicate (unat (L p)) [] ! k) \<union> {r. r \<le> M p - 1}"
    unfolding assms(1) reset_def fresh_def using assms(3,4)
    by (simp del: nth_replicate) (rule fill_rnd_nth_set, simp_all)
  with assms(4,5) have "r \<le> M p - 1" by auto
  moreover have "M p \<noteq> 0" using assms(2) by auto
  ultimately show ?thesis
    by (simp add: word_le_nat_alt word_less_nat_alt unat_minus_one unat_gt_0 [symmetric])
qed

lemma reset_lengths:
  "length (tables (reset us rng st p)) = unat (L p)"
  "length (rndArray (reset us rng st p)) = unat (L p)"
  "length (pcsAll (reset us rng st p)) = unat (L p)"
  "length (omegasAll (reset us rng st p)) = unat (L p)"
  by (simp_all add: reset_def)

lemma ex_reset1:
  "reset ex_us 7 (fresh ex_param :: int itqLsh) ex_param
     = \<lparr>param = ex_param, pcsAll = [[]], omegasAll = [[]], rndArray = [[7, 0]], tables = [[]]\<rparr>"
  by code_simp

text \<open>
  C7 says that after every \<^verbatim>\<open>reset\<close>, also one on an index that was reset before, each
  \<^verbatim>\<open>rndArray[k]\<close> holds exactly \<open>N\<close> values, all below \<open>M\<close>. The arrays do have length \<open>L\<close>
  (\<open>reset_lengths\<close>), and the first \<^verbatim>\<open>reset\<close> fills them as said (\<open>reset_fresh_shape\<close>,
  \<open>reset_fresh_range\<close>). But \<^verbatim>\<open>rndArray.resize\<close> keeps the rows it has and \<^verbatim>\<open>push_back\<close> appends
  to them: a second \<^verbatim>\<open>reset\<close>, here from \<open>M = 8\<close> to \<open>M = 2\<close> with \<open>N = 2\<close>, leaves four
  weights in \<^verbatim>\<open>rndArray[0]\<close>, and the first of them, which is the one \<^verbatim>\<open>getHashVal\<close> reads for
  bit 0, is 7.
\<close>

theorem reset_twice_appends:
  "rndArray (reset ex_us 7 (reset ex_us 7 (fresh ex_param :: int itqLsh) ex_param) ex_param2)
     = [[7, 0, 1, 0]] \<and>
   N ex_param2 = 2 \<and> M ex_param2 = 2 \<and> L ex_param2 = 1"
  by code_simp

section \<open>\<^verbatim>\<open>train\<close> writes the projections only\<close>

lemma train_table_frame:
  assumes "train_table lib us nd data st k g = Some (st', g')"
  shows "param st' = param st \<and> rndArray st' = rndArray st \<and> tables st' = tables st \<and>
    length (pcsAll st') = length (pcsAll st) \<and> length (omegasAll st') = length (omegasAll st)"
  using assms unfolding train_table_def
  by (auto simp: bind_eq_Some_conv Let_def case_prod_beta split: if_splits)

lemma train_loop_frame:
  "train_loop lib us nd data c k st g = Some st' \<Longrightarrow>
     param st' = param st \<and> rndArray st' = rndArray st \<and> tables st' = tables st \<and>
     length (pcsAll st') = length (pcsAll st) \<and> length (omegasAll st') = length (omegasAll st)"
proof (induction c arbitrary: k st g)
  case 0
  then show ?case by simp
next
  case (Suc c)
  then obtain st1 g1 where
    one: "train_table lib us nd data st k g = Some (st1, g1)" and
    rest: "train_loop lib us nd data c (Suc k) st1 g1 = Some st'"
    by (auto simp: bind_eq_Some_conv)
  from train_table_frame [OF one] Suc.IH [OF rest] show ?case by simp
qed

text \<open>
  C8: a call of \<^verbatim>\<open>train\<close> that returns leaves the parameters, every \<^verbatim>\<open>rndArray[k]\<close> and every
  table of buckets exactly as they were; it assigns to \<^verbatim>\<open>omegasAll[k]\<close> and \<^verbatim>\<open>pcsAll[k]\<close> only.
  This holds whatever the Eigen routines, the sampler and the dataset are.
\<close>

theorem train_frame:
  assumes "train lib us nd rng st data = Some st'"
  shows "param st' = param st \<and> rndArray st' = rndArray st \<and> tables st' = tables st"
  using assms train_loop_frame [of lib us nd data "unat (L (param st))" 0 st rng st']
  by (simp add: train_def split: if_splits)

lemma ex_sample: "sample_seqs ex_us 2 2 [] 0 = Some ([0, 1], 2)"
  unfolding numeral_2_eq_2
  apply (subst sample_seqs.simps, simp add: ex_us_def)
  apply (subst sample_seqs.simps, simp add: ex_us_def)
  apply (subst sample_seqs.simps, simp add: ex_us_def)
  done

lemma ex_reset_eq:
  "ex_reset = \<lparr>param = ex_param, pcsAll = [[]], omegasAll = [[]], rndArray = [[7, 0]],
     tables = [[]]\<rparr>"
  unfolding ex_reset_def by (rule ex_reset1)

lemma ex_draw: "draw_rows ex_nd 2 2 2 = ([[2, 3], [4, 5]], 6)"
  by (simp add: ex_nd_def numeral_2_eq_2)

lemma ex_itq:
  "itq_loop ex_lib 1 [[1, 1], [1, - 1]] [[2, 3], [4, 5]] = [[4, 4], [4, 4]]"
  by (simp add: ex_lib_def Let_def ex_mul2 sign_matrix_def ex_transpose)

lemma ex_store:
  "store_rows [[4, 4], [4, 4 :: int]] 2 2 0 = Some [[4, 4], [4, 4]]"
  "store_rows [[1, 0], [0, 1 :: int]] 2 2 0 = Some [[1, 0], [0, 1]]"
  by (simp_all add: mat_at_def vec_at_def numeral_2_eq_2)

lemma ex_train:
  "train ex_lib ex_us ex_nd 0 ex_reset ex_data
     = Some \<lparr>param = ex_param, pcsAll = [[[1, 0], [0, 1]]], omegasAll = [[[4, 4], [4, 4]]],
          rndArray = [[7, 0]], tables = [[]]\<rparr>"
  unfolding train_def ex_reset_eq
  by (simp add: train_table_def ex_sample ex_draw vec_at_def vec_prefix_def Let_def ex_mul2
      ex_lib_def sign_matrix_def ex_transpose ex_store)

theorem train_frame_witness:
  "train ex_lib ex_us ex_nd 0 ex_reset ex_data
     = Some \<lparr>param = ex_param, pcsAll = [[[1, 0], [0, 1]]], omegasAll = [[[4, 4], [4, 4]]],
          rndArray = [[7, 0]], tables = [[]]\<rparr> \<and>
   param ex_reset = ex_param \<and> rndArray ex_reset = [[7, 0]] \<and> tables ex_reset = [[]] \<and>
   pcsAll ex_reset = [[]] \<and> omegasAll ex_reset = [[]]"
  using train_frame [OF ex_train] ex_train
  by (simp add: ex_reset_eq)

section \<open>Persistence\<close>












lemma ex_save_rows:
  "save_rows 2 0 (ex_tables ts) 0 = Some [F 1, F 0, F 1, F 0, F 0, F 1, F 0, F 1]"
  unfolding numeral_2_eq_2 by (simp add: vec_at_def vec_prefix_def)

lemma ex_save: "save (ex_tables [[(1, [7]), (3, [9])]]) = Some ex_file"
  by (simp add: save_def vec_at_def vec_prefix_def ex_file_def ex_save_rows)

lemma ex_load_rows:
  "load_rows e 2 0 2 2 (replicate 2 []) (replicate 2 [])
       [F 1, F 0, F 1, F 0, F 0, F 1, F 0, F (1::int)]
     = ([[1, 0], [0, 1]], [[1, 0], [0, 1]], [])"
  unfolding numeral_2_eq_2 by (simp add: read_f32s_def resize_vec_def)

lemma ex_load_rows_short:
  "load_rows e 2 0 2 2 (replicate 2 []) (replicate 2 [])
       [F 1, F 0, F 1, F 0, F 0, F 1, F (0::int)]
     = ([[1, 0], [0, 1]], [[1, 0], [0, 0]], [])"
  unfolding numeral_2_eq_2 by (simp add: read_f32s_def resize_vec_def)

lemma ex_load_buckets:
  "load_buckets e 0 2 0 [] (U 1 # U 1 # U 7 # U 3 # U 1 # U 9 # rest)
     = ([(1, [7]), (3, [9])], rest)"
  unfolding numeral_2_eq_2 by (simp add: read_u32s_def resize_vec_def)

lemma ex_load:
  "load e (fresh ex_param2) ex_file
     = (ex_tables [[(1, [7]), (3, [9])]])\<lparr>param := ex_param\<lparr>I := I ex_param2\<rparr>\<rparr>"
  by (simp add: load_def ex_file_def fresh_def ex_load_rows read_u32s_def resize_vec_def
      ex_load_buckets ex_tables_def ex_index_def ex_param_def ex_param2_def)

text \<open>
  The same file without its last field: the last \<^verbatim>\<open>read\<close> fails after one float, the second
  entry of \<^verbatim>\<open>omegasAll[0][1]\<close> stays the zero that \<^verbatim>\<open>resize\<close> put there, and \<^verbatim>\<open>load\<close> returns.
\<close>

lemma ex_load_short:
  "load e (fresh ex_param2) (butlast ex_file)
     = \<lparr>param = ex_param\<lparr>I := I ex_param2\<rparr>, pcsAll = [[[1, 0], [0, 1]]],
        omegasAll = [[[1, 0], [0, 0]]], rndArray = [[3, 6]], tables = [[(1, [7]), (3, [9])]]\<rparr>"
  by (simp add: load_def ex_file_def fresh_def ex_load_rows_short read_u32s_def resize_vec_def
      ex_load_buckets ex_param_def ex_param2_def)

lemma save_rows_I [simp]:
  "save_rows c j (st\<lparr>param := (param st)\<lparr>I := x\<rparr>\<rparr>) i = save_rows c j st i"
  by (induction c arbitrary: j) simp_all

lemma save_tables_I [simp]:
  "save_tables c i (st\<lparr>param := (param st)\<lparr>I := x\<rparr>\<rparr>) = save_tables c i st"
  by (induction c arbitrary: i) simp_all

lemma load_tables_param: "param (load_tables e c i st inp) = param st"
  by (induction c arbitrary: i st inp) (simp_all add: case_prod_beta)

lemma load_param_I: "I (param (load e st fl)) = I (param st)"
  by (simp add: load_def case_prod_beta load_tables_param)

text \<open>
  C9: the iteration count \<^verbatim>\<open>I\<close> is not persisted. The file that \<^verbatim>\<open>save\<close> writes is the same
  whatever \<^verbatim>\<open>param.I\<close> is, and it starts with the five fields \<^verbatim>\<open>M, L, D, N, S\<close>. After a call of
  \<^verbatim>\<open>load\<close>, \<^verbatim>\<open>param.I\<close> is what it was before the call: on every file, also one that ends
  early or holds other fields than \<^verbatim>\<open>save\<close> writes, and whatever the locals that are not
  initialised hold.
\<close>

theorem I_not_persisted:
  fixes st :: "'a itqLsh" and st0 :: "'f::zero itqLsh"
  shows "save (st\<lparr>param := (param st)\<lparr>I := x\<rparr>\<rparr>) = save st \<and>
   (\<forall>file. save st = Some file \<longrightarrow>
      take 5 file = [U (M (param st)), U (L (param st)), U (D (param st)), U (N (param st)),
                     U (S (param st))]) \<and>
   (\<forall>e file. I (param (load e st0 file)) = I (param st0))"
proof (intro conjI allI impI)
  show "save (st\<lparr>param := (param st)\<lparr>I := x\<rparr>\<rparr>) = save st"
    by (simp add: save_def)
next
  fix fl assume "save st = Some fl"
  then show "take 5 fl =
      [U (M (param st)), U (L (param st)), U (D (param st)), U (N (param st)), U (S (param st))]"
    by (auto simp: save_def bind_eq_Some_conv split: if_splits)
next
  fix e fl show "I (param (load e st0 fl)) = I (param st0)"
    by (rule load_param_I)
qed

theorem I_not_persisted_witness:
  "save (ex_tables [[(1, [7]), (3, [9])]]) = Some ex_file \<and>
   save ((ex_tables [[(1, [7]), (3, [9])]])\<lparr>param := ex_param\<lparr>I := 77\<rparr>\<rparr>) = Some ex_file \<and>
   take 5 ex_file = [U 8, U 1, U 2, U 2, U 2] \<and>
   load ex_env (fresh ex_param2) ex_file
     = (ex_tables [[(1, [7]), (3, [9])]])\<lparr>param := ex_param\<lparr>I := I ex_param2\<rparr>\<rparr> \<and>
   I (param (load ex_env (fresh ex_param2) ex_file)) = I ex_param2 \<and>
   load ex_env (fresh ex_param2) (butlast ex_file)
     = \<lparr>param = ex_param\<lparr>I := I ex_param2\<rparr>, pcsAll = [[[1, 0], [0, 1]]],
        omegasAll = [[[1, 0], [0, 0]]], rndArray = [[3, 6]], tables = [[(1, [7]), (3, [9])]]\<rparr> \<and>
   I (param (load ex_env (fresh ex_param2) (butlast ex_file))) = I ex_param2"
proof -
  let ?st = "ex_tables [[(1, [7]), (3, [9])]]"
  from I_not_persisted [where st = ?st and x = 77 and ?st0.0 = "fresh ex_param2 :: int itqLsh"]
  have a: "save (?st\<lparr>param := (param ?st)\<lparr>I := 77\<rparr>\<rparr>) = save ?st"
    and b: "\<And>fl. save ?st = Some fl \<Longrightarrow> take 5 fl =
        [U (M (param ?st)), U (L (param ?st)), U (D (param ?st)), U (N (param ?st)),
         U (S (param ?st))]"
    and c: "\<And>e fl. I (param (load e (fresh ex_param2 :: int itqLsh) fl))
        = I (param (fresh ex_param2 :: int itqLsh))"
    by blast+
  from a have a': "save (?st\<lparr>param := ex_param\<lparr>I := 77\<rparr>\<rparr>) = Some ex_file"
    by (simp add: ex_save)
  from b [OF ex_save] have b': "take 5 ex_file = [U 8, U 1, U 2, U 2, U 2]"
    by simp
  from c [of ex_env ex_file]
  have c1: "I (param (load ex_env (fresh ex_param2) ex_file)) = I ex_param2"
    by (simp add: fresh_def)
  from c [of ex_env "butlast ex_file"]
  have c2: "I (param (load ex_env (fresh ex_param2) (butlast ex_file))) = I ex_param2"
    by (simp add: fresh_def)
  from ex_save a' b' ex_load [of ex_env] c1 ex_load_short [of ex_env] c2 show ?thesis
    by (intro conjI)
qed





lemma map_store_keys: "map fst (map_store h v t) = map fst t"
  by (induction t) auto

lemma map_index_keys: "set (map fst (snd (map_index h t))) = insert h (set (map fst t))"
proof (induction t)
  case Nil
  then show ?case by simp
next
  case (Cons e t)
  obtain b ids where e: "e = (b, ids)" by (cases e)
  show ?case
  proof (cases "h = b \<or> h < b")
    case True
    with e show ?thesis by auto
  next
    case False
    with e have "snd (map_index h (e # t)) = e # snd (map_index h t)"
      by (simp split: prod.splits)
    then have "set (map fst (snd (map_index h (e # t))))
        = insert (fst e) (set (map fst (snd (map_index h t))))"
      by simp
    also have "\<dots> = insert (fst e) (insert h (set (map fst t)))"
      unfolding Cons.IH ..
    finally show ?thesis by auto
  qed
qed

lemma map_index_sorted:
  "sorted_wrt (<) (map fst t) \<Longrightarrow> sorted_wrt (<) (map fst (snd (map_index h t)))"
proof (induction t)
  case Nil
  then show ?case by simp
next
  case (Cons e t)
  obtain b ids where e: "e = (b, ids)" by (cases e)
  show ?case
  proof (cases "h = b \<or> h < b")
    case True
    with Cons.prems e show ?thesis by auto
  next
    case False
    then have b: "b < h" by auto
    from False e have "snd (map_index h (e # t)) = e # snd (map_index h t)"
      by (simp split: prod.splits)
    moreover have "\<forall>x \<in> set (map fst (snd (map_index h t))). b < x"
      unfolding map_index_keys using Cons.prems e b by auto
    ultimately show ?thesis
      using Cons e by simp
  qed
qed

lemma push_back_at_keys:
  "set (map fst (push_back_at h key t)) = insert h (set (map fst t))"
  unfolding push_back_at_def case_prod_beta map_store_keys map_index_keys ..

lemma push_back_at_sorted:
  "sorted_wrt (<) (map fst t) \<Longrightarrow> sorted_wrt (<) (map fst (push_back_at h key t))"
  by (simp add: push_back_at_def case_prod_beta map_store_keys map_index_sorted)

subsection \<open>The round trip of an index built by \<^verbatim>\<open>reset\<close>, \<^verbatim>\<open>train\<close> and insertions\<close>

lemma getHashVal_less_M:
  "getHashVal st k domin = Some h \<Longrightarrow> h < M (param st)"
  by (auto simp: getHashVal_def bind_eq_Some_conv word_mod_less_divisor word_neq_0_conv
      split: if_splits)

lemma insert_key_ordered:
  assumes "insert_key st key v = Some st'" and "maps_ordered st"
  shows "maps_ordered st'"
  unfolding maps_ordered_def
proof (intro ballI)
  fix t assume "t \<in> set (tables st')"
  then obtain k where k: "k < length (tables st')" "t = tables st' ! k"
    by (auto simp: in_set_conv_nth)
  note f = insert_key_frame [OF assms(1)]
  from k f have old: "tables st ! k \<in> set (tables st)" by simp
  with assms(2) have o: "sorted_wrt (<) (map fst (tables st ! k))"
    "\<forall>b \<in> set (map fst (tables st ! k)). b < M (param st)"
    unfolding maps_ordered_def by auto
  show "sorted_wrt (<) (map fst t) \<and> (\<forall>b \<in> fst ` set t. b < M (param st'))"
  proof (cases "k < unat (L (param st))")
    case True
    from insert_key_tables(1) [OF assms(1) True] obtain h where
      h: "getHashVal st k v = Some h" "tables st' ! k = push_back_at h key (tables st ! k)"
      by blast
    from getHashVal_less_M [OF h(1)] have "h < M (param st)" .
    with o h(2) k(2) f(1) push_back_at_keys [of h key "tables st ! k"]
      push_back_at_sorted [OF o(1), of h key]
    show ?thesis by auto
  next
    case False
    with insert_key_tables(2) [OF assms(1), of k] k(2) o f(1) show ?thesis by auto
  qed
qed

lemma hash_loop_ordered:
  "hash_loop c i data st = Some st' \<Longrightarrow> maps_ordered st \<Longrightarrow> maps_ordered st'"
proof (induction c arbitrary: i st)
  case 0
  then show ?case by simp
next
  case (Suc c)
  then obtain row st1 where
    "insert_key st (word_of_nat i) row = Some st1" "hash_loop c (Suc i) data st1 = Some st'"
    by (auto simp: bind_eq_Some_conv)
  with Suc.IH Suc.prems(2) insert_key_ordered show ?case by blast
qed

lemma apply_op_ordered: "apply_op st x = Some st' \<Longrightarrow> maps_ordered st \<Longrightarrow> maps_ordered st'"
  by (cases x) (auto simp: hash_def intro: insert_key_ordered hash_loop_ordered)

lemma run_ops_ordered: "run_ops st xs = Some st' \<Longrightarrow> maps_ordered st \<Longrightarrow> maps_ordered st'"
proof (induction xs arbitrary: st)
  case Nil
  then show ?case by simp
next
  case (Cons x xs)
  then obtain st1 where "apply_op st x = Some st1" "run_ops st1 xs = Some st'"
    by (auto simp: bind_eq_Some_conv)
  with Cons.IH Cons.prems(2) apply_op_ordered show ?case by blast
qed






lemma ex_trained_simps [simp]:
  "param (ex_trained ts) = ex_param" "tables (ex_trained ts) = ts"
  "pcsAll (ex_trained ts) = [[[1, 0], [0, 1]]]" "omegasAll (ex_trained ts) = [[[4, 4], [4, 4]]]"
  "rndArray (ex_trained ts) = [[7, 0]]"
  by (simp_all add: ex_trained_def)

lemma ex_trained_update [simp]: "ex_trained ts\<lparr>tables := ts'\<rparr> = ex_trained ts'"
  by (simp add: ex_trained_def)

lemma ex_trained_getHashVal:
  "getHashVal (ex_trained ts) 0 [1, 1] = Some 7"
  "getHashVal (ex_trained ts) 0 [1, - 1] = Some 0"
  "getHashVal (ex_trained ts) 0 [- 1, 1] = Some 0"
  by (simp_all add: getHashVal_def vec_at_def)

lemma ex_trained_hash:
  "hash (ex_trained [[]]) ex_data = Some (ex_trained [[(0, [1, 2]), (7, [0])]])"
  by (simp add: hash_def insert_key_def ex_trained_getHashVal vec_at_def push_back_at_def
      numeral_3_eq_3)

lemma ex_train_trained:
  "train ex_lib ex_us ex_nd 0 ex_reset ex_data = Some (ex_trained [[]])"
  by (simp add: ex_train ex_trained_def)






subsection \<open>The round trip after a second \<^verbatim>\<open>reset\<close>\<close>



lemma ex_twice_simps [simp]:
  "param (ex_twice ts) = ex_param" "tables (ex_twice ts) = ts"
  "pcsAll (ex_twice ts) = [[[1, 0], [0, 1]]]" "omegasAll (ex_twice ts) = [[[4, 4], [4, 4]]]"
  "rndArray (ex_twice ts) = [[7, 0, 7, 0]]"
  by (simp_all add: ex_twice_def)

lemma ex_twice_update [simp]: "ex_twice ts\<lparr>tables := ts'\<rparr> = ex_twice ts'"
  by (simp add: ex_twice_def ex_trained_def)









section \<open>Ids that do not agree with their bucket\<close>

lemma ex_insert_other:
  "insert_key (ex_trained [[(0, [1, 2]), (7, [0])]]) 0 [1, - 1]
     = Some (ex_trained [[(0, [1, 2, 0]), (7, [0])]])"
  by (simp add: insert_key_def ex_trained_getHashVal push_back_at_def vec_at_def)

lemma ex_insert_before:
  "insert_key (ex_trained [[]]) 2 [1, 1] = Some (ex_trained [[(7, [2])]])"
  by (simp add: insert_key_def ex_trained_getHashVal push_back_at_def vec_at_def)

lemma ex_hash_after:
  "hash (ex_trained [[(7, [2])]]) ex_data = Some (ex_trained [[(0, [1, 2]), (7, [2, 0])]])"
  by (simp add: hash_def insert_key_def ex_trained_getHashVal vec_at_def push_back_at_def
      numeral_3_eq_3)

text \<open>
  C5 speaks of every state reached from \<^verbatim>\<open>hash(data)\<close> on a trained index by \<^verbatim>\<open>insert\<close> calls
  with vectors of \<open>data\<close>. The index is reset and trained, and \<^verbatim>\<open>hash(data)\<close> runs: row 0
  hashes to 7, rows 1 and 2 to 0. Then \<^verbatim>\<open>insert(0, data[1])\<close> stores id 0 in bucket 0, and
  \<^verbatim>\<open>getHashVal(0, data[0])\<close> is 7. And when the trained index holds id 2 in bucket 7 before,
  from \<^verbatim>\<open>insert(2, data[0])\<close>, it still does after \<^verbatim>\<open>hash(data)\<close>, and \<^verbatim>\<open>getHashVal(0, data[2])\<close>
  is 0.
\<close>

theorem insert_other_row_disagrees:
  "train ex_lib ex_us ex_nd 0 (reset ex_us 7 (fresh ex_param) ex_param) ex_data
     = Some (ex_trained [[]]) \<and>
   hash (ex_trained [[]]) ex_data = Some (ex_trained [[(0, [1, 2]), (7, [0])]]) \<and>
   insert_key (ex_trained [[(0, [1, 2]), (7, [0])]]) 0 (rows ex_data ! 1)
     = Some (ex_trained [[(0, [1, 2, 0]), (7, [0])]]) \<and>
   map_find 0 (tables (ex_trained [[(0, [1, 2, 0]), (7, [0])]]) ! 0) = Some [1, 2, 0] \<and>
   getHashVal (ex_trained [[(0, [1, 2, 0]), (7, [0])]]) 0 (rows ex_data ! unat (0::u32))
     = Some 7 \<and>
   insert_key (ex_trained [[]]) 2 (rows ex_data ! 0) = Some (ex_trained [[(7, [2])]]) \<and>
   hash (ex_trained [[(7, [2])]]) ex_data = Some (ex_trained [[(0, [1, 2]), (7, [2, 0])]]) \<and>
   map_find 7 (tables (ex_trained [[(0, [1, 2]), (7, [2, 0])]]) ! 0) = Some [2, 0] \<and>
   getHashVal (ex_trained [[(0, [1, 2]), (7, [2, 0])]]) 0 (rows ex_data ! unat (2::u32))
     = Some 0"
proof -
  have t: "train ex_lib ex_us ex_nd 0 (reset ex_us 7 (fresh ex_param) ex_param) ex_data
     = Some (ex_trained [[]])"
    using ex_train_trained by (simp add: ex_reset_def)
  have i1: "insert_key (ex_trained [[(0, [1, 2]), (7, [0])]]) 0 (rows ex_data ! 1)
     = Some (ex_trained [[(0, [1, 2, 0]), (7, [0])]])"
    using ex_insert_other by simp
  have f1: "map_find 0 (tables (ex_trained [[(0, [1, 2, 0]), (7, [0])]]) ! 0) = Some [1, 2, 0]"
    by simp
  have h1: "getHashVal (ex_trained [[(0, [1, 2, 0]), (7, [0])]]) 0
      (rows ex_data ! unat (0::u32)) = Some 7"
    by (simp add: ex_trained_getHashVal)
  have i2: "insert_key (ex_trained [[]]) 2 (rows ex_data ! 0) = Some (ex_trained [[(7, [2])]])"
    using ex_insert_before by simp
  have f2: "map_find 7 (tables (ex_trained [[(0, [1, 2]), (7, [2, 0])]]) ! 0) = Some [2, 0]"
    by simp
  have h2: "getHashVal (ex_trained [[(0, [1, 2]), (7, [2, 0])]]) 0
      (rows ex_data ! unat (2::u32)) = Some 0"
    by (simp add: ex_trained_getHashVal)
  from t ex_trained_hash i1 f1 h1 i2 ex_hash_after f2 h2 show ?thesis by (intro conjI)
qed

end
